theory Spec2Isabelle
  imports Main "HOL-Library.Monad_Syntax" "HOL-Library.Signed_Division" "HOL-Library.Sublist"
    "HOL-Library.Multiset"
begin

section \<open>Data model of game.cpp\<close>

text \<open>
  A card is a \<open>std::string\<close> (\<open>Player<string>\<close>, \<open>Deck<string>\<close>). A C++ \<open>int\<close> is
  modelled as a HOL \<open>int\<close>; the places where the source would leave the range of a
  32-bit \<open>int\<close> or read a vector out of range are undefined behaviour and are the value
  \<open>None\<close> of the model.
\<close>

record player =
  name :: string
  hand :: "string list"
  alive :: bool

text \<open>What the program prints that the properties below observe (\<open>cout\<close> lines).\<close>

datatype event =
    HiddenPlay string nat          \<comment> \<open>"X played k card(s)"\<close>
  | AskHuman                       \<comment> \<open>"Question previous player (y/n)?"\<close>
  | DecidesToQuestion string       \<comment> \<open>"X decides to question!"\<close>
  | DecidesNot string              \<comment> \<open>"X decides NOT to question."\<close>
  | ForcedToQuestion string        \<comment> \<open>"X is forced to question!"\<close>
  | Reveal string "string list"    \<comment> \<open>"Revealing cards of X: ..."\<close>
  | PlayedWrongly string string    \<comment> \<open>"P played wrongly!" "Q was right to question!"\<close>
  | WrongToQuestion string         \<comment> \<open>"Q was wrong to question!"\<close>
  | DiedThirdTime string           \<comment> \<open>"Bomb exploded! X has died (3rd time bomb)!"\<close>
  | Died string                    \<comment> \<open>"Bomb exploded! X has died."\<close>
  | Survived string                \<comment> \<open>"Bomb did not explode this time! X has survived."\<close>

text \<open>
  The members of \<open>Game\<close>, the locals \<open>focus\<close>, \<open>roundOver\<close> and \<open>anyQuestionAsked\<close> of
  \<open>Game::play\<close>, and the output written so far.
\<close>

record state =
  players :: "player list"
  currentPlayerIndex :: int
  deck :: "string list"
  surviveCount :: "string \<rightharpoonup> int"
  lastPlayedByIndex :: "string list list"
  focus :: string
  roundOver :: bool
  anyQuestionAsked :: bool
  out :: "event list"

definition INT_MAX :: int where
  "INT_MAX = 2147483647"

text \<open>\<open>v[i]\<close> on a \<open>std::vector\<close> with an \<open>int\<close> index: out of range is undefined.\<close>

definition at :: "'a list \<Rightarrow> int \<Rightarrow> 'a option" where
  "at xs i = (if 0 \<le> i \<and> i < int (length xs) then Some (xs ! nat i) else None)"

text \<open>
  \<open>surviveCount[k]\<close> read as an rvalue: \<open>operator[]\<close> of \<open>unordered_map\<close> gives 0 for a
  key that is not there (and inserts it; every path of the source that reads a key
  assigns the same key right after, so the insertion is not modelled apart).
\<close>

definition count_of :: "(string \<rightharpoonup> int) \<Rightarrow> string \<Rightarrow> int" where
  "count_of m k = (case m k of None \<Rightarrow> 0 | Some v \<Rightarrow> v)"

section \<open>Player\<close>

text \<open>\<open>hand.erase(hand.begin() + idx)\<close>.\<close>

fun erase :: "'a list \<Rightarrow> nat \<Rightarrow> 'a list" where
  "erase [] i = []"
| "erase (x # xs) 0 = xs"
| "erase (x # xs) (Suc i) = x # erase xs i"

definition removeCardAt :: "int \<Rightarrow> player \<Rightarrow> player" where
  "removeCardAt idx p =
     (if idx \<ge> 0 \<and> idx < int (length (hand p))
      then p\<lparr>hand := erase (hand p) (nat idx)\<rparr>
      else p)"

text \<open>\<open>playCards\<close>: up to n cards from the back; the loop counts i from 0 while \<open>i < n\<close>.\<close>

fun playCards_loop :: "nat \<Rightarrow> string list \<Rightarrow> string list \<Rightarrow> string list \<times> string list" where
  "playCards_loop 0 h played = (played, h)"
| "playCards_loop (Suc k) h played =
     (if h = [] then (played, h)
      else playCards_loop k (butlast h) (played @ [last h]))"

definition playCards :: "int \<Rightarrow> player \<Rightarrow> string list \<times> player" where
  "playCards n p =
     (let (played, h) = playCards_loop (nat n) (hand p) [] in (played, p\<lparr>hand := h\<rparr>))"

section \<open>Game: the helpers\<close>

text \<open>The \<open>for\<close> loop of \<open>playIsCorrect\<close>, then the function with its guard on the empty play.\<close>

fun allMatch :: "string list \<Rightarrow> string \<Rightarrow> bool" where
  "allMatch [] fc = True"
| "allMatch (c # cs) fc = (if c \<noteq> fc \<and> c \<noteq> ''Magic'' then False else allMatch cs fc)"

definition playIsCorrect :: "string list \<Rightarrow> string \<Rightarrow> bool" where
  "playIsCorrect played fc = (if played = [] then False else allMatch played fc)"

text \<open>\<open>findPlayerIndex\<close>: the first index whose player has the name, or -1.\<close>

fun findPlayerIndex_loop :: "player list \<Rightarrow> string \<Rightarrow> int \<Rightarrow> int" where
  "findPlayerIndex_loop [] nm i = - 1"
| "findPlayerIndex_loop (p # ps) nm i =
     (if name p = nm then i else findPlayerIndex_loop ps nm (i + 1))"

definition findPlayerIndex :: "player list \<Rightarrow> string \<Rightarrow> int" where
  "findPlayerIndex ps nm = findPlayerIndex_loop ps nm 0"

text \<open>
  \<open>getNextAlivePlayer\<close>: i runs from 1 to n; \<open>%\<close> of C++ truncates toward zero
  (\<open>smod\<close>), so a start below -1 can give a negative index, which \<open>players[idx]\<close> must
  not be given; \<open>start + i\<close> must stay an \<open>int\<close>.
\<close>

function getNextAlivePlayer_loop :: "player list \<Rightarrow> int \<Rightarrow> int \<Rightarrow> int option" where
  "getNextAlivePlayer_loop ps start i =
     (if i \<le> int (length ps) then
        (if start + i > INT_MAX then None
         else (case at ps ((start + i) smod int (length ps)) of
                 None \<Rightarrow> None
               | Some p \<Rightarrow>
                   if alive p \<and> hand p \<noteq> [] then Some ((start + i) smod int (length ps))
                   else getNextAlivePlayer_loop ps start (i + 1)))
      else Some (- 1))"
  by pat_completeness auto
termination
  by (relation "measure (\<lambda>(ps, start, i). nat (int (length ps) + 1 - i))") auto

definition getNextAlivePlayer :: "player list \<Rightarrow> int \<Rightarrow> int option" where
  "getNextAlivePlayer ps start =
     (if int (length ps) = 0 then Some (- 1) else getNextAlivePlayer_loop ps start 1)"

definition countAlivePlayers :: "player list \<Rightarrow> int" where
  "countAlivePlayers ps = int (length (filter alive ps))"

definition countAliveWithCards :: "player list \<Rightarrow> int" where
  "countAliveWithCards ps = int (length (filter (\<lambda>p. alive p \<and> hand p \<noteq> []) ps))"

section \<open>Deck\<close>

text \<open>
  \<open>Deck::reset\<close> fills the deck with the fixed cards and shuffles them; the outcome of
  the shuffle is an input of the model, a list with the cards of \<open>fixed_cards\<close>.
  \<open>Deck::deal\<close> is the same loop as \<open>Player::playCards\<close>, on the deck.
\<close>

definition fixed_cards :: "string list" where
  "fixed_cards =
     replicate 6 ''Sun'' @ replicate 6 ''Star'' @ replicate 6 ''Moon'' @ replicate 2 ''Magic''"

definition deal :: "int \<Rightarrow> string list \<Rightarrow> string list \<times> string list" where
  "deal n cards = playCards_loop (nat n) cards []"

fun dealCardsToAlive_loop :: "int \<Rightarrow> player list \<Rightarrow> string list \<Rightarrow> player list \<times> string list" where
  "dealCardsToAlive_loop n [] d = ([], d)"
| "dealCardsToAlive_loop n (p # ps) d =
     (if alive p then
        (let (h, d') = deal n d; (ps', d'') = dealCardsToAlive_loop n ps d'
         in (p\<lparr>hand := h\<rparr> # ps', d''))
      else
        (let (ps', d'') = dealCardsToAlive_loop n ps d in (p # ps', d'')))"

definition dealCardsToAlive :: "int \<Rightarrow> state \<Rightarrow> state" where
  "dealCardsToAlive n s =
     (let (ps', d') = dealCardsToAlive_loop n (players s) (deck s)
      in s\<lparr>players := ps', deck := d'\<rparr>)"

section \<open>Game: challenge resolution\<close>

text \<open>
  The bomb of \<open>handleQuestioning\<close> (the same statements in both branches, lines 200-213 on
  \<open>playerWhoPlayed\<close> and lines 226-239 on \<open>questioner\<close>): \<open>sj\<close> is the index in
  \<open>players\<close> of the player the reference is bound to, \<open>r\<close> the value of \<open>rand()\<close>.
\<close>

definition bomb :: "nat \<Rightarrow> nat \<Rightarrow> state \<Rightarrow> state" where
  "bomb sj r s =
     (let nm = name (players s ! sj) in
      if count_of (surviveCount s) nm \<ge> 2 then
        s\<lparr>players := (players s)[sj := (players s ! sj)\<lparr>alive := False\<rparr>],
          surviveCount := (surviveCount s)(nm \<mapsto> 0),
          out := out s @ [DiedThirdTime nm]\<rparr>
      else if r mod 3 = 0 then
        s\<lparr>players := (players s)[sj := (players s ! sj)\<lparr>alive := False\<rparr>],
          surviveCount := (surviveCount s)(nm \<mapsto> 0),
          out := out s @ [Died nm]\<rparr>
      else
        s\<lparr>surviveCount := (surviveCount s)(nm \<mapsto> count_of (surviveCount s) nm + 1),
          out := out s @ [Survived nm]\<rparr>)"

text \<open>
  Lines 215-220 and 241-246: the turn goes to the questioner, looked up by the name
  \<open>questioner.getName()\<close>.
\<close>

definition turnToQuestioner :: "string \<Rightarrow> state \<Rightarrow> state option" where
  "turnToQuestioner nm s =
     (let idx = findPlayerIndex (players s) nm in
      if idx \<noteq> - 1 then Some (s\<lparr>currentPlayerIndex := idx\<rparr>)
      else (case getNextAlivePlayer (players s) (- 1) of
              None \<Rightarrow> None
            | Some fallback \<Rightarrow>
                Some (s\<lparr>currentPlayerIndex := (if fallback \<noteq> - 1 then fallback else 0)\<rparr>)))"

text \<open>
  \<open>handleQuestioning\<close>: \<open>q\<close> and \<open>w\<close> are the indices in \<open>players\<close> of the players that
  \<open>questioner\<close> and \<open>playerWhoPlayed\<close> refer to (references into the vector, so both
  are below its size).
\<close>

definition handleQuestioning ::
  "nat \<Rightarrow> nat \<Rightarrow> string list \<Rightarrow> string \<Rightarrow> nat \<Rightarrow> state \<Rightarrow> (bool \<times> state) option" where
  "handleQuestioning q w played fc r s =
     (let s1 = s\<lparr>out := out s @ [Reveal (name (players s ! w)) played]\<rparr>;
          correctPlay = playIsCorrect played fc in
      if \<not> correctPlay then
        (let s2 = bomb w r (s1\<lparr>out := out s1 @
                     [PlayedWrongly (name (players s1 ! w)) (name (players s1 ! q))]\<rparr>) in
         case turnToQuestioner (name (players s2 ! q)) s2 of
           None \<Rightarrow> None
         | Some s3 \<Rightarrow> Some (True, s3))
      else
        (let s2 = bomb q r (s1\<lparr>out := out s1 @ [WrongToQuestion (name (players s1 ! q))]\<rparr>) in
         case turnToQuestioner (name (players s2 ! q)) s2 of
           None \<Rightarrow> None
         | Some s3 \<Rightarrow> Some (True, s3)))"

section \<open>Game::play\<close>

text \<open>
  What one pass through the body of the inner \<open>while\<close> reads from outside: the indices
  the human chose (\<open>chosen\<close> as the input loops of lines 310-357 leave it: zero-based,
  \<open>n\<close> of them), the values of the calls of \<open>rand()\<close> and the character read for "y/n".
\<close>

record inputs =
  chosen :: "int list"
  rand_count :: nat
  rand_question :: nat
  answer :: char
  rand_bomb :: nat
  rand_forced_bomb :: nat

text \<open>How a part of the loop body is left: by \<open>break\<close>, by \<open>continue\<close>, or at its end.\<close>

datatype flow = Break | Continue | Fallthrough

text \<open>\<open>sort(chosen.rbegin(), chosen.rend())\<close>: ascending through the reverse iterators.\<close>

definition sort_desc :: "int list \<Rightarrow> int list" where
  "sort_desc xs = rev (sort (rev xs))"

text \<open>
  Lines 361-366. \<open>hand\<close> is a reference to the hand of \<open>currentPlayer\<close>, so \<open>hand[idx]\<close>
  reads the hand as the removals so far have left it.
\<close>

fun removeChosen_loop :: "int list \<Rightarrow> player \<Rightarrow> string list \<Rightarrow> (string list \<times> player) option" where
  "removeChosen_loop [] p played = Some (played, p)"
| "removeChosen_loop (idx # rest) p played =
     (case at (hand p) idx of
        None \<Rightarrow> None
      | Some c \<Rightarrow> removeChosen_loop rest (removeCardAt idx p) (played @ [c]))"

definition humanPlay :: "int list \<Rightarrow> player \<Rightarrow> (string list \<times> player) option" where
  "humanPlay ch p =
     (case removeChosen_loop (sort_desc ch) p [] of
        None \<Rightarrow> None
      | Some (played, p') \<Rightarrow> Some (rev played, p'))"

text \<open>Lines 369-372 and 405-408.\<close>

definition storeLastPlayed :: "string \<Rightarrow> string list \<Rightarrow> state \<Rightarrow> state option" where
  "storeLastPlayed nm played s =
     (let curIdx = findPlayerIndex (players s) nm in
      if curIdx \<noteq> - 1 then
        (if curIdx < int (length (lastPlayedByIndex s))
         then Some (s\<lparr>lastPlayedByIndex := (lastPlayedByIndex s)[nat curIdx := played]\<rparr>)
         else None)
      else Some s)"

text \<open>
  Lines 385-390, 422-427 and 435-440 (the same statements): \<open>nextP\<close> questions
  \<open>currentPlayer\<close>; \<open>nxt\<close> and \<open>cur\<close> are their indices.
\<close>

definition questionPrevious :: "int \<Rightarrow> int \<Rightarrow> nat \<Rightarrow> state \<Rightarrow> state option" where
  "questionPrevious nxt cur r s = do {
     currentPlayer \<leftarrow> at (players s) cur;
     toCheck \<leftarrow> (let ownerIdx = findPlayerIndex (players s) (name currentPlayer) in
                 if ownerIdx \<noteq> - 1 then at (lastPlayedByIndex s) ownerIdx else Some []);
     (b, s') \<leftarrow> handleQuestioning (nat nxt) (nat cur) toCheck (focus s) r s;
     Some (s'\<lparr>roundOver := b, anyQuestionAsked := True\<rparr>)
   }"

text \<open>Lines 304-395.\<close>

definition humanTurn :: "inputs \<Rightarrow> state \<Rightarrow> (flow \<times> state) option" where
  "humanTurn inp s = do {
     currentPlayer \<leftarrow> at (players s) (currentPlayerIndex s);
     (played, p') \<leftarrow> humanPlay (chosen inp) currentPlayer;
     s1 \<leftarrow> storeLastPlayed (name p') played
             (s\<lparr>players := (players s)[nat (currentPlayerIndex s) := p']\<rparr>);
     let s2 = s1\<lparr>out := out s1 @ [HiddenPlay ''Human'' (length played)]\<rparr>;
     nxt \<leftarrow> getNextAlivePlayer (players s2) (currentPlayerIndex s2);
     if nxt = - 1 then Some (Break, s2\<lparr>roundOver := True\<rparr>)
     else do {
       nextP \<leftarrow> at (players s2) nxt;
       if sublist ''Bot'' (name nextP) then
         (if rand_question inp mod 100 < 30 then do {
            s3 \<leftarrow> questionPrevious nxt (currentPlayerIndex s2) (rand_bomb inp)
                    (s2\<lparr>out := out s2 @ [DecidesToQuestion (name nextP)]\<rparr>);
            Some (Fallthrough, s3)
          }
          else Some (Fallthrough, s2\<lparr>out := out s2 @ [DecidesNot (name nextP)]\<rparr>))
       else Some (Fallthrough, s2)
     }
   }"

text \<open>Lines 400-446.\<close>

definition botTurn :: "inputs \<Rightarrow> state \<Rightarrow> (flow \<times> state) option" where
  "botTurn inp s = do {
     currentPlayer \<leftarrow> at (players s) (currentPlayerIndex s);
     let (played, p') = playCards (int (rand_count inp mod 3) + 1) currentPlayer;
     s1 \<leftarrow> storeLastPlayed (name p') played
             (s\<lparr>players := (players s)[nat (currentPlayerIndex s) := p']\<rparr>);
     let s2 = s1\<lparr>out := out s1 @ [HiddenPlay (name p') (length played)]\<rparr>;
     nxt \<leftarrow> getNextAlivePlayer (players s2) (currentPlayerIndex s2);
     if nxt = - 1 then Some (Break, s2\<lparr>roundOver := True\<rparr>)
     else do {
       nextP \<leftarrow> at (players s2) nxt;
       if name nextP = ''Human'' then
         (let s3 = s2\<lparr>out := out s2 @ [AskHuman]\<rparr> in
          if answer inp = CHR ''y'' \<or> answer inp = CHR ''Y'' then do {
            s4 \<leftarrow> questionPrevious nxt (currentPlayerIndex s3) (rand_bomb inp) s3;
            Some (Fallthrough, s4)
          }
          else Some (Fallthrough, s3\<lparr>out := out s3 @ [DecidesNot ''Human'']\<rparr>))
       else
         (if rand_question inp mod 100 < 30 then do {
            s3 \<leftarrow> questionPrevious nxt (currentPlayerIndex s2) (rand_bomb inp)
                    (s2\<lparr>out := out s2 @ [DecidesToQuestion (name nextP)]\<rparr>);
            Some (Fallthrough, s3)
          }
          else Some (Fallthrough, s2\<lparr>out := out s2 @ [DecidesNot (name nextP)]\<rparr>))
     }
   }"

text \<open>Lines 286-446: the guard on the players left, the skip step, then the turn.\<close>

definition turn :: "inputs \<Rightarrow> state \<Rightarrow> (flow \<times> state) option" where
  "turn inp s =
     (if countAliveWithCards (players s) \<le> 1 then Some (Break, s)
      else do {
        currentPlayer \<leftarrow> at (players s) (currentPlayerIndex s);
        if \<not> alive currentPlayer \<or> hand currentPlayer = [] then do {
          nxt \<leftarrow> getNextAlivePlayer (players s) (currentPlayerIndex s);
          if nxt = - 1 then Some (Break, s\<lparr>roundOver := True\<rparr>)
          else Some (Continue, s\<lparr>currentPlayerIndex := nxt\<rparr>)
        }
        else if name currentPlayer = ''Human'' then humanTurn inp s
        else botTurn inp s
      })"

text \<open>Lines 449-472: forced questioning.\<close>

definition forcedQuestioning :: "inputs \<Rightarrow> state \<Rightarrow> (flow \<times> state) option" where
  "forcedQuestioning inp s =
     (if \<not> roundOver s then
        (let alivePlayers = countAlivePlayers (players s) in
         if \<not> anyQuestionAsked s \<and> alivePlayers = 2 then do {
           nxt \<leftarrow> getNextAlivePlayer (players s) (currentPlayerIndex s);
           if nxt = - 1 then Some (Break, s\<lparr>roundOver := True\<rparr>)
           else do {
             questioner \<leftarrow> at (players s) nxt;
             previous \<leftarrow> at (players s) (currentPlayerIndex s);
             if hand previous = [] then do {
               played \<leftarrow> (let prevIdx = findPlayerIndex (players s) (name previous) in
                          if prevIdx \<noteq> - 1 then at (lastPlayedByIndex s) prevIdx else Some []);
               (b, s') \<leftarrow> handleQuestioning (nat nxt) (nat (currentPlayerIndex s)) played
                            (focus s) (rand_forced_bomb inp)
                            (s\<lparr>out := out s @ [ForcedToQuestion (name questioner)]\<rparr>);
               Some (Fallthrough, s'\<lparr>roundOver := b, anyQuestionAsked := True\<rparr>)
             }
             else Some (Fallthrough, s)
           }
         }
         else Some (Fallthrough, s))
      else Some (Fallthrough, s))"

text \<open>Lines 474-478.\<close>

definition advance :: "state \<Rightarrow> (flow \<times> state) option" where
  "advance s =
     (if \<not> roundOver s then do {
        nxt \<leftarrow> getNextAlivePlayer (players s) (currentPlayerIndex s);
        if nxt = - 1 then Some (Break, s\<lparr>roundOver := True\<rparr>)
        else Some (Fallthrough, s\<lparr>currentPlayerIndex := nxt\<rparr>)
      }
      else Some (Fallthrough, s))"

text \<open>The body of the inner \<open>while\<close>, lines 286-478.\<close>

definition body :: "inputs \<Rightarrow> state \<Rightarrow> (flow \<times> state) option" where
  "body inp s = do {
     (f1, s1) \<leftarrow> turn inp s;
     if f1 \<noteq> Fallthrough then Some (f1, s1)
     else do {
       (f2, s2) \<leftarrow> forcedQuestioning inp s1;
       if f2 \<noteq> Fallthrough then Some (f2, s2) else advance s2
     }
   }"

text \<open>
  The constructor of \<open>Game\<close>: \<open>r\<close> is the value of \<open>rand()\<close>, \<open>d\<close> the deck as the
  constructor of \<open>Deck\<close> shuffled it. The locals of \<open>play\<close> have no value yet; the
  record holds an empty string and False for them until the outer loop assigns them.
\<close>

definition player_names :: "string list" where
  "player_names = [''Human'', ''Bot1'', ''Bot2'', ''Bot3'']"

definition Game_init :: "nat \<Rightarrow> string list \<Rightarrow> state" where
  "Game_init r d =
     \<lparr>players = map (\<lambda>nm. \<lparr>name = nm, hand = [], alive = True\<rparr>) player_names,
      currentPlayerIndex = int (r mod length player_names),
      deck = d,
      surviveCount = map_of (map (\<lambda>nm. (nm, 0)) player_names),
      lastPlayedByIndex = replicate (length player_names) [],
      focus = [], roundOver = False, anyQuestionAsked = False, out = []\<rparr>"

definition randomFocusCard :: "nat \<Rightarrow> string" where
  "randomFocusCard r = [''Sun'', ''Moon'', ''Star''] ! (r mod 3)"

text \<open>
  The states \<open>play\<close> can be in at the head of the outer \<open>while\<close>, at the head of the inner
  \<open>while\<close>, and after the loops, for every outcome of the shuffles, of \<open>rand()\<close> and of
  the human's input.
\<close>

datatype pc = OuterWhile | InnerWhile | AfterLoops

inductive reachable :: "pc \<Rightarrow> state \<Rightarrow> bool" where
  start:
    "mset d0 = mset fixed_cards \<Longrightarrow> mset d1 = mset fixed_cards \<Longrightarrow>
     reachable OuterWhile (dealCardsToAlive 5 ((Game_init r d0)\<lparr>deck := d1\<rparr>))"
| enter_round:
    "reachable OuterWhile s \<Longrightarrow> countAliveWithCards (players s) > 1 \<Longrightarrow>
     reachable InnerWhile
       (s\<lparr>focus := randomFocusCard r, roundOver := False, anyQuestionAsked := False\<rparr>)"
| iterate:
    "reachable InnerWhile s \<Longrightarrow> \<not> roundOver s \<Longrightarrow> body inp s = Some (fl, s') \<Longrightarrow>
     fl \<noteq> Break \<Longrightarrow> reachable InnerWhile s'"
| round_over:
    "reachable InnerWhile s \<Longrightarrow> roundOver s \<Longrightarrow> mset d = mset fixed_cards \<Longrightarrow>
     reachable OuterWhile ((dealCardsToAlive 5 (s\<lparr>deck := d\<rparr>))\<lparr>anyQuestionAsked := False\<rparr>)"
| round_break:
    "reachable InnerWhile s \<Longrightarrow> \<not> roundOver s \<Longrightarrow> body inp s = Some (Break, s') \<Longrightarrow>
     mset d = mset fixed_cards \<Longrightarrow>
     reachable OuterWhile ((dealCardsToAlive 5 (s'\<lparr>deck := d\<rparr>))\<lparr>anyQuestionAsked := False\<rparr>)"
| finish:
    "reachable OuterWhile s \<Longrightarrow> \<not> countAliveWithCards (players s) > 1 \<Longrightarrow>
     reachable AfterLoops s"


section \<open>What the properties speak of\<close>

text \<open>The events a part of the program wrote, between the state before and the state after.\<close>

definition emitted :: "state \<Rightarrow> state \<Rightarrow> event list" where
  "emitted s s' = drop (length (out s)) (out s')"

fun isForced :: "event \<Rightarrow> bool" where
  "isForced (ForcedToQuestion nm) = True"
| "isForced e = False"

definition forcedFired :: "state \<Rightarrow> state \<Rightarrow> bool" where
  "forcedFired s s' = list_ex isForced (emitted s s')"

text \<open>
  The player who was given the decision to question: the human is asked, a bot is
  reported to decide or not to decide.
\<close>

fun decider_of :: "event list \<Rightarrow> string option" where
  "decider_of [] = None"
| "decider_of (AskHuman # es) = Some ''Human''"
| "decider_of (DecidesToQuestion nm # es) = Some nm"
| "decider_of (DecidesNot nm # es) = Some nm"
| "decider_of (e # es) = decider_of es"

text \<open>
  The seats after \<open>start\<close> in wrapping order (the seat \<open>start\<close> itself comes last), and
  the first of them whose player satisfies \<open>P\<close>.
\<close>

definition seatsAfter :: "nat \<Rightarrow> int \<Rightarrow> nat list" where
  "seatsAfter n start = map (\<lambda>k. nat ((start + int k) mod int n)) [1..<Suc n]"

definition firstAfter :: "(player \<Rightarrow> bool) \<Rightarrow> player list \<Rightarrow> int \<Rightarrow> nat option" where
  "firstAfter P ps start = find (\<lambda>j. P (ps ! j)) (seatsAfter (length ps) start)"

text \<open>The words of the specification: "the next alive player after the one who just played".\<close>

definition firstAliveAfter :: "player list \<Rightarrow> int \<Rightarrow> nat option" where
  "firstAliveAfter ps start = firstAfter alive ps start"

definition firstAliveWithCardsAfter :: "player list \<Rightarrow> int \<Rightarrow> nat option" where
  "firstAliveWithCardsAfter ps start = firstAfter (\<lambda>p. alive p \<and> hand p \<noteq> []) ps start"

text \<open>
  The words of the specification for the order of a human's play: the chosen cards "in
  the order the human selected them".
\<close>

definition selection_order :: "string list \<Rightarrow> int list \<Rightarrow> string list" where
  "selection_order h ch = map (\<lambda>i. h ! nat i) ch"

text \<open>
  What the input loops of the human's turn (lines 310-357) guarantee of \<open>chosen\<close>: between
  one and three indices, each within the hand, no index twice.
\<close>

definition valid_choice :: "string list \<Rightarrow> int list \<Rightarrow> bool" where
  "valid_choice h ch \<longleftrightarrow>
     1 \<le> length ch \<and> length ch \<le> 3 \<and> distinct ch \<and> list_all (\<lambda>i. 0 \<le> i \<and> i < int (length h)) ch"

text \<open>
  The party at fault in \<open>handleQuestioning\<close>, the one its bomb is for: the questioner
  \<open>q\<close> when the play is correct, the player \<open>w\<close> who played when it is not; and what
  \<open>handleQuestioning\<close> prints before the bomb.
\<close>

definition atFault :: "nat \<Rightarrow> nat \<Rightarrow> string list \<Rightarrow> string \<Rightarrow> nat" where
  "atFault q w played fc = (if playIsCorrect played fc then q else w)"

definition faultEvents :: "nat \<Rightarrow> nat \<Rightarrow> string list \<Rightarrow> string \<Rightarrow> state \<Rightarrow> event list" where
  "faultEvents q w played fc s =
     [Reveal (name (players s ! w)) played,
      if playIsCorrect played fc then WrongToQuestion (name (players s ! q))
      else PlayedWrongly (name (players s ! w)) (name (players s ! q))]"

text \<open>The survive counter of every name is 0, 1 or 2.\<close>

definition counts_ok :: "state \<Rightarrow> bool" where
  "counts_ok s \<longleftrightarrow> (\<forall>nm. count_of (surviveCount s) nm \<in> {0, 1, 2})"

text \<open>
  The tests of lines 449-461 together: when they hold, forced questioning goes on to
  \<open>handleQuestioning\<close>.
\<close>

definition forcedCondition :: "state \<Rightarrow> bool" where
  "forcedCondition s \<longleftrightarrow>
     \<not> roundOver s \<and> \<not> anyQuestionAsked s \<and> countAlivePlayers (players s) = 2 \<and>
     (case getNextAlivePlayer (players s) (currentPlayerIndex s) of
        None \<Rightarrow> False
      | Some nxt \<Rightarrow> nxt \<noteq> - 1 \<and>
          (case at (players s) (currentPlayerIndex s) of
             None \<Rightarrow> False
           | Some previous \<Rightarrow> hand previous = []))"

text \<open>
  The shape the constructor gives the game and every step keeps: the four players under
  their names, a slot of \<open>lastPlayedByIndex\<close> for each, the turn at one of them.
\<close>

definition shape_ok :: "state \<Rightarrow> bool" where
  "shape_ok s \<longleftrightarrow>
     map name (players s) = player_names \<and>
     length (lastPlayedByIndex s) = length (players s) \<and>
     0 \<le> currentPlayerIndex s \<and> currentPlayerIndex s < int (length (players s))"

text \<open>
  What every part of the loop body keeps from the state before to the state after, and
  the parts that print no "is forced to question".
\<close>

definition steady :: "state \<Rightarrow> state \<Rightarrow> bool" where
  "steady s s' \<longleftrightarrow>
     (counts_ok s \<longrightarrow> counts_ok s') \<and>
     map name (players s') = map name (players s) \<and>
     length (lastPlayedByIndex s') = length (lastPlayedByIndex s) \<and>
     deck s' = deck s \<and> focus s' = focus s \<and>
     (\<exists>evs. out s' = out s @ evs)"

definition quiet :: "state \<Rightarrow> state \<Rightarrow> bool" where
  "quiet s s' \<longleftrightarrow> (\<exists>evs. out s' = out s @ evs \<and> \<not> list_ex isForced evs)"

section \<open>The two turns, part by part\<close>

text \<open>
  \<open>humanTurn\<close> and \<open>botTurn\<close> are the same statements but for the way the cards are
  chosen and the decision is taken. For the proofs they are cut at the same places: the
  play with its record (lines 304-375 and 400-411), then the decision about a question
  (lines 377-394 and 413-445), which a bot takes by \<open>rand()\<close> and the human by a
  character. \<open>humanTurn_parts\<close> and \<open>botTurn_parts\<close> below prove the turns equal to the
  parts put together.
\<close>

definition playPart :: "inputs \<Rightarrow> state \<Rightarrow> state option" where
  "playPart inp s = do {
     currentPlayer \<leftarrow> at (players s) (currentPlayerIndex s);
     (played, p') \<leftarrow> (if name currentPlayer = ''Human'' then humanPlay (chosen inp) currentPlayer
                      else Some (playCards (int (rand_count inp mod 3) + 1) currentPlayer));
     s1 \<leftarrow> storeLastPlayed (name p') played
             (s\<lparr>players := (players s)[nat (currentPlayerIndex s) := p']\<rparr>);
     Some (s1\<lparr>out := out s1 @ [HiddenPlay (name currentPlayer) (length played)]\<rparr>)
   }"

definition rollPart :: "inputs \<Rightarrow> int \<Rightarrow> player \<Rightarrow> state \<Rightarrow> (flow \<times> state) option" where
  "rollPart inp nxt nextP s =
     (if rand_question inp mod 100 < 30 then do {
        s3 \<leftarrow> questionPrevious nxt (currentPlayerIndex s) (rand_bomb inp)
                (s\<lparr>out := out s @ [DecidesToQuestion (name nextP)]\<rparr>);
        Some (Fallthrough, s3)
      }
      else Some (Fallthrough, s\<lparr>out := out s @ [DecidesNot (name nextP)]\<rparr>))"

definition askPart :: "inputs \<Rightarrow> int \<Rightarrow> state \<Rightarrow> (flow \<times> state) option" where
  "askPart inp nxt s =
     (if answer inp = CHR ''y'' \<or> answer inp = CHR ''Y'' then do {
        s4 \<leftarrow> questionPrevious nxt (currentPlayerIndex s) (rand_bomb inp)
                (s\<lparr>out := out s @ [AskHuman]\<rparr>);
        Some (Fallthrough, s4)
      }
      else Some (Fallthrough, s\<lparr>out := out s @ [AskHuman, DecidesNot ''Human'']\<rparr>))"

definition decisionPart :: "inputs \<Rightarrow> bool \<Rightarrow> state \<Rightarrow> (flow \<times> state) option" where
  "decisionPart inp human s = do {
     nxt \<leftarrow> getNextAlivePlayer (players s) (currentPlayerIndex s);
     if nxt = - 1 then Some (Break, s\<lparr>roundOver := True\<rparr>)
     else do {
       nextP \<leftarrow> at (players s) nxt;
       if human then
         (if sublist ''Bot'' (name nextP) then rollPart inp nxt nextP s else Some (Fallthrough, s))
       else
         (if name nextP = ''Human'' then askPart inp nxt s else rollPart inp nxt nextP s)
     }
   }"

section \<open>States and inputs for the examples\<close>

text \<open>
  Two players are left, Bot1 with its last card, a Sun, and Bot2; Bot1 has survived the
  bomb twice and it is its turn.
\<close>

definition ex_state :: state where
  "ex_state =
     \<lparr>players = [\<lparr>name = ''Human'', hand = [], alive = False\<rparr>,
                 \<lparr>name = ''Bot1'', hand = [''Sun''], alive = True\<rparr>,
                 \<lparr>name = ''Bot2'', hand = [''Star'', ''Moon''], alive = True\<rparr>,
                 \<lparr>name = ''Bot3'', hand = [], alive = False\<rparr>],
      currentPlayerIndex = 1, deck = [],
      surviveCount = map_of [(''Human'', 0), (''Bot1'', 2), (''Bot2'', 0), (''Bot3'', 1)],
      lastPlayedByIndex = [[], [''Moon''], [''Star''], []],
      focus = ''Sun'', roundOver = False, anyQuestionAsked = False, out = []\<rparr>"

text \<open>The same game after Bot1 has played the Sun and Bot2 has not questioned.\<close>

definition ex_forced :: state where
  "ex_forced =
     \<lparr>players = [\<lparr>name = ''Human'', hand = [], alive = False\<rparr>,
                 \<lparr>name = ''Bot1'', hand = [], alive = True\<rparr>,
                 \<lparr>name = ''Bot2'', hand = [''Star'', ''Moon''], alive = True\<rparr>,
                 \<lparr>name = ''Bot3'', hand = [], alive = False\<rparr>],
      currentPlayerIndex = 1, deck = [],
      surviveCount = map_of [(''Human'', 0), (''Bot1'', 2), (''Bot2'', 0), (''Bot3'', 1)],
      lastPlayedByIndex = [[], [''Sun''], [''Star''], []],
      focus = ''Sun'', roundOver = False, anyQuestionAsked = False, out = []\<rparr>"

text \<open>
  Three players are left and Bot1, who sits after the human, has played all its cards;
  it is the human's turn.
\<close>

definition ex_passed :: state where
  "ex_passed =
     \<lparr>players = [\<lparr>name = ''Human'', hand = [''Sun'', ''Moon''], alive = True\<rparr>,
                 \<lparr>name = ''Bot1'', hand = [], alive = True\<rparr>,
                 \<lparr>name = ''Bot2'', hand = [''Star''], alive = True\<rparr>,
                 \<lparr>name = ''Bot3'', hand = [], alive = False\<rparr>],
      currentPlayerIndex = 0, deck = [],
      surviveCount = map_of [(''Human'', 0), (''Bot1'', 0), (''Bot2'', 0), (''Bot3'', 0)],
      lastPlayedByIndex = [[''Star'', ''Sun''], [''Moon'', ''Sun''], [''Sun'', ''Magic''], []],
      focus = ''Sun'', roundOver = False, anyQuestionAsked = False, out = []\<rparr>"

text \<open>
  The first round of a game: the constructor, the deal from a deck left in the order of
  \<open>fixed_cards\<close>, the focus card drawn.
\<close>

definition ex_round :: state where
  "ex_round =
     (dealCardsToAlive 5 ((Game_init 0 fixed_cards)\<lparr>deck := fixed_cards\<rparr>))
       \<lparr>focus := randomFocusCard 0, roundOver := False, anyQuestionAsked := False\<rparr>"

text \<open>
  Inputs: the human chooses the first card and answers "n", a bot plays one card; the
  bot asked does not question (\<open>ex_inputs\<close>) or does (\<open>ex_asking\<close>); the bomb does not
  explode.
\<close>

definition ex_inputs :: inputs where
  "ex_inputs =
     \<lparr>chosen = [0], rand_count = 0, rand_question = 50, answer = CHR ''n'',
      rand_bomb = 1, rand_forced_bomb = 1\<rparr>"

definition ex_asking :: inputs where
  "ex_asking =
     \<lparr>chosen = [0], rand_count = 0, rand_question = 10, answer = CHR ''n'',
      rand_bomb = 1, rand_forced_bomb = 1\<rparr>"

text \<open>A hand of the human, and two players of whom none is alive with cards.\<close>

definition ex_human :: player where
  "ex_human = \<lparr>name = ''Human'', hand = [''Sun'', ''Star'', ''Moon''], alive = True\<rparr>"

definition ex_dead :: "player list" where
  "ex_dead = [\<lparr>name = ''Human'', hand = [''Sun''], alive = False\<rparr>,
              \<lparr>name = ''Bot1'', hand = [], alive = True\<rparr>]"

section \<open>Properties\<close>

subsection \<open>The next-player lookup\<close>

declare getNextAlivePlayer_loop.simps [simp del]

lemma smod_nonneg: "0 \<le> a \<Longrightarrow> 0 < n \<Longrightarrow> (a::int) smod n = a mod n"
  by (simp add: signed_modulo_int_def sgn_if)

lemma getNextAlivePlayer_loop_sound:
  "getNextAlivePlayer_loop ps start i = Some idx \<Longrightarrow> idx \<noteq> - 1 \<Longrightarrow>
     0 \<le> idx \<and> idx < int (length ps) \<and> alive (ps ! nat idx) \<and> hand (ps ! nat idx) \<noteq> []"
proof (induction ps start i rule: getNextAlivePlayer_loop.induct)
  case (1 ps start i)
  show ?case
  proof (cases "i \<le> int (length ps)")
    case False
    with "1.prems" show ?thesis by (subst (asm) getNextAlivePlayer_loop.simps) simp
  next
    case True
    note le = this
    show ?thesis
    proof (cases "start + i > INT_MAX")
      case True
      with le "1.prems" show ?thesis by (subst (asm) getNextAlivePlayer_loop.simps) simp
    next
      case False
      note nov = this
      show ?thesis
      proof (cases "at ps ((start + i) smod int (length ps))")
        case None
        with le nov "1.prems" show ?thesis by (subst (asm) getNextAlivePlayer_loop.simps) simp
      next
        case (Some p)
        show ?thesis
        proof (cases "alive p \<and> hand p \<noteq> []")
          case True
          with le nov Some "1.prems" have "idx = (start + i) smod int (length ps)"
            by (subst (asm) getNextAlivePlayer_loop.simps) simp
          with Some True show ?thesis
            by (auto simp: at_def split: if_splits)
        next
          case False
          with le nov Some "1.prems" have "getNextAlivePlayer_loop ps start (i + 1) = Some idx"
            by (subst (asm) getNextAlivePlayer_loop.simps) simp
          with "1.IH" [OF le nov Some False] "1.prems" show ?thesis by simp
        qed
      qed
    qed
  qed
qed

lemma getNextAlivePlayer_loop_find:
  "- 1 \<le> start \<Longrightarrow> start + int (length ps) \<le> INT_MAX \<Longrightarrow> 1 \<le> i \<Longrightarrow>
   getNextAlivePlayer_loop ps start i =
     Some (case find (\<lambda>j. alive (ps ! j) \<and> hand (ps ! j) \<noteq> [])
                 (map (\<lambda>k. nat ((start + int k) mod int (length ps))) [nat i..<Suc (length ps)]) of
             None \<Rightarrow> - 1 | Some j \<Rightarrow> int j)"
proof (induction ps start i rule: getNextAlivePlayer_loop.induct)
  case (1 ps start i)
  show ?case
  proof (cases "i \<le> int (length ps)")
    case False
    then have "[nat i..<Suc (length ps)] = []" by simp
    with False show ?thesis by (subst getNextAlivePlayer_loop.simps) simp
  next
    case True
    note le = this
    with "1.prems" have npos: "0 < int (length ps)" by linarith
    from le "1.prems" have nov: "\<not> start + i > INT_MAX" by linarith
    from "1.prems" have nn: "0 \<le> start + i" by linarith
    let ?j = "(start + i) mod int (length ps)"
    have sm: "(start + i) smod int (length ps) = ?j" using nn npos by (rule smod_nonneg)
    have jr: "0 \<le> ?j" "?j < int (length ps)" using npos by simp_all
    then have atj: "at ps ?j = Some (ps ! nat ?j)" by (simp add: at_def)
    have "nat i < Suc (length ps)" using le "1.prems" by linarith
    then have "[nat i..<Suc (length ps)] = nat i # [Suc (nat i)..<Suc (length ps)]"
      by (rule upt_conv_Cons)
    moreover have "Suc (nat i) = nat (i + 1)" using "1.prems" by linarith
    ultimately have upt: "[nat i..<Suc (length ps)] = nat i # [nat (i + 1)..<Suc (length ps)]"
      by simp
    have inat: "int (nat i) = i" using "1.prems" by simp
    show ?thesis
    proof (cases "alive (ps ! nat ?j) \<and> hand (ps ! nat ?j) \<noteq> []")
      case True
      then show ?thesis
        using le nov sm atj jr "1.prems"(3)
        by (subst getNextAlivePlayer_loop.simps, subst upt) (simp add: inat del: upt_Suc)
    next
      case False
      have ih: "getNextAlivePlayer_loop ps start (i + 1) =
         Some (case find (\<lambda>j. alive (ps ! j) \<and> hand (ps ! j) \<noteq> [])
                 (map (\<lambda>k. nat ((start + int k) mod int (length ps))) [nat (i + 1)..<Suc (length ps)]) of
             None \<Rightarrow> - 1 | Some j \<Rightarrow> int j)"
        using "1.IH" [OF le nov _ _ "1.prems"(1) "1.prems"(2)] atj sm False "1.prems"(3) by simp
      show ?thesis
        using le nov sm atj False ih "1.prems"(3)
        by (subst getNextAlivePlayer_loop.simps, subst upt) (auto simp add: inat simp del: upt_Suc)
    qed
  qed
qed

lemma getNextAlivePlayer_sound:
  "getNextAlivePlayer ps start = Some idx \<Longrightarrow> idx \<noteq> - 1 \<Longrightarrow>
     0 \<le> idx \<and> idx < int (length ps) \<and> alive (ps ! nat idx) \<and> hand (ps ! nat idx) \<noteq> []"
  by (auto simp: getNextAlivePlayer_def split: if_splits dest: getNextAlivePlayer_loop_sound)

lemma getNextAlivePlayer_first:
  assumes "- 1 \<le> start" "start + int (length ps) \<le> INT_MAX"
  shows "getNextAlivePlayer ps start =
     Some (case firstAliveWithCardsAfter ps start of None \<Rightarrow> - 1 | Some j \<Rightarrow> int j)"
proof (cases "length ps = 0")
  case True
  then show ?thesis
    by (simp add: getNextAlivePlayer_def firstAliveWithCardsAfter_def firstAfter_def seatsAfter_def)
next
  case False
  then show ?thesis
    using getNextAlivePlayer_loop_find [OF assms, of 1]
    by (simp add: getNextAlivePlayer_def firstAliveWithCardsAfter_def firstAfter_def seatsAfter_def
        del: upt_Suc)
qed

lemma seatsAfter_in_range: "j \<in> set (seatsAfter n start) \<Longrightarrow> j < n"
  by (cases "n = 0") (auto simp: seatsAfter_def simp del: upt_Suc intro: nat_less_iff [THEN iffD2])

lemma seatsAfter_all:
  assumes "j < n"
  shows "j \<in> set (seatsAfter n start)"
proof -
  define k where "k = nat ((int j - start - 1) mod int n) + 1"
  have n: "0 < int n" using assms by simp
  have r0: "0 \<le> (int j - start - 1) mod int n" using n by simp
  have r1: "(int j - start - 1) mod int n < int n" using n by simp
  have "nat ((int j - start - 1) mod int n) < n" using r0 r1 by linarith
  then have kin: "k \<in> set [1..<Suc n]" by (simp add: k_def del: upt_Suc)
  have ik: "int k = (int j - start - 1) mod int n + 1" using r0 by (simp add: k_def)
  have "(start + int k) mod int n = (start + ((int j - start - 1) mod int n + 1)) mod int n"
    by (simp only: ik)
  also have "\<dots> = (start + ((int j - start - 1) + 1)) mod int n"
    by (rule mod_add_cong [OF refl]) (rule mod_add_left_eq)
  also have "\<dots> = int j" using assms by simp
  finally have "nat ((start + int k) mod int n) = j" by simp
  with kin show ?thesis
    unfolding seatsAfter_def set_map by (intro image_eqI [where x = k]) simp_all
qed

lemma firstAfter_exists:
  assumes "j < length ps" "P (ps ! j)"
  shows "\<exists>j'. firstAfter P ps start = Some j'"
proof (cases "firstAfter P ps start")
  case None
  then have "\<not> P (ps ! j)"
    using seatsAfter_all [OF assms(1), of start] by (auto simp: firstAfter_def find_None_iff)
  with assms show ?thesis by simp
qed simp

lemma firstAfter_Some:
  "firstAfter P ps start = Some j \<Longrightarrow> j < length ps \<and> P (ps ! j)"
  by (auto simp: firstAfter_def find_Some_iff dest: seatsAfter_in_range nth_mem)

lemma firstAfter_None:
  "(\<forall>p \<in> set ps. \<not> P p) \<Longrightarrow> firstAfter P ps start = None"
  by (auto simp: firstAfter_def find_None_iff dest: seatsAfter_in_range)

lemma getNextAlivePlayer_none:
  assumes "- 1 \<le> start" "start + int (length ps) \<le> INT_MAX"
    and "\<forall>p \<in> set ps. \<not> (alive p \<and> hand p \<noteq> [])"
  shows "getNextAlivePlayer ps start = Some (- 1)"
  using getNextAlivePlayer_first [OF assms(1,2)] firstAfter_None [of ps "\<lambda>p. alive p \<and> hand p \<noteq> []" start] assms(3)
  by (simp add: firstAliveWithCardsAfter_def)

subsection \<open>Lookup by name\<close>

lemma findPlayerIndex_loop_range:
  "findPlayerIndex_loop ps nm i = r \<Longrightarrow> r \<noteq> - 1 \<Longrightarrow> 0 \<le> i \<Longrightarrow>
     i \<le> r \<and> r < i + int (length ps) \<and> name (ps ! nat (r - i)) = nm"
proof (induction ps arbitrary: i)
  case Nil
  then show ?case by simp
next
  case (Cons p ps)
  show ?case
  proof (cases "name p = nm")
    case True
    with Cons.prems show ?thesis by simp
  next
    case False
    with Cons.prems have rec: "findPlayerIndex_loop ps nm (i + 1) = r" by simp
    from Cons.IH [OF rec Cons.prems(2)] Cons.prems(3)
    have ih: "i + 1 \<le> r" "r < i + 1 + int (length ps)" "name (ps ! nat (r - (i + 1))) = nm"
      by simp_all
    have "nat (r - i) = Suc (nat (r - (i + 1)))" using ih(1) by linarith
    with ih show ?thesis by simp
  qed
qed

lemma findPlayerIndex_loop_names:
  "map name ps = map name ps' \<Longrightarrow> findPlayerIndex_loop ps nm i = findPlayerIndex_loop ps' nm i"
proof (induction ps arbitrary: ps' i)
  case Nil
  then show ?case by simp
next
  case (Cons p ps)
  then obtain p' qs where "ps' = p' # qs" by (cases ps') auto
  with Cons show ?case by auto
qed

lemma findPlayerIndex_names:
  "map name ps = map name ps' \<Longrightarrow> findPlayerIndex ps nm = findPlayerIndex ps' nm"
  unfolding findPlayerIndex_def by (rule findPlayerIndex_loop_names)

lemma findPlayerIndex_loop_found:
  "nm \<in> set (map name ps) \<Longrightarrow> 0 \<le> i \<Longrightarrow> findPlayerIndex_loop ps nm i \<noteq> - 1"
proof (induction ps arbitrary: i)
  case Nil
  then show ?case by simp
next
  case (Cons p ps)
  show ?case
  proof (cases "name p = nm")
    case True
    with Cons.prems show ?thesis by simp
  next
    case False
    with Cons.prems have "nm \<in> set (map name ps)" by auto
    from Cons.IH [OF this, of "i + 1"] Cons.prems False show ?thesis by simp
  qed
qed

lemma findPlayerIndex_found:
  "j < length ps \<Longrightarrow> findPlayerIndex ps (name (ps ! j)) \<noteq> - 1"
  unfolding findPlayerIndex_def by (rule findPlayerIndex_loop_found) simp_all

lemma findPlayerIndex_range:
  "findPlayerIndex ps nm \<noteq> - 1 \<Longrightarrow>
     0 \<le> findPlayerIndex ps nm \<and> findPlayerIndex ps nm < int (length ps)
     \<and> name (ps ! nat (findPlayerIndex ps nm)) = nm"
  using findPlayerIndex_loop_range [of ps nm 0 "findPlayerIndex ps nm"]
  by (simp add: findPlayerIndex_def)

lemma findPlayerIndex_distinct:
  assumes "distinct (map name ps)" "j < length ps"
  shows "findPlayerIndex ps (name (ps ! j)) = int j"
proof -
  let ?r = "findPlayerIndex ps (name (ps ! j))"
  have ne: "?r \<noteq> - 1" using assms(2) by (rule findPlayerIndex_found)
  from findPlayerIndex_range [OF ne]
  have r: "0 \<le> ?r" "?r < int (length ps)" "name (ps ! nat ?r) = name (ps ! j)" by simp_all
  then have "nat ?r < length ps" by linarith
  with assms r(3) have "nat ?r = j"
    using nth_eq_iff_index_eq [of "map name ps" "nat ?r" j] by simp
  with r(1) show ?thesis by linarith
qed

subsection \<open>The bomb\<close>

lemma kill_names: "map name (ps[sj := (ps ! sj)\<lparr>alive := False\<rparr>]) = map name ps"
proof (rule nth_equalityI)
  fix i
  assume "i < length (map name (ps[sj := (ps ! sj)\<lparr>alive := False\<rparr>]))"
  then show "map name (ps[sj := (ps ! sj)\<lparr>alive := False\<rparr>]) ! i = map name ps ! i"
    by (cases "i = sj") simp_all
qed simp

lemma kill_hands: "map hand (ps[sj := (ps ! sj)\<lparr>alive := False\<rparr>]) = map hand ps"
proof (rule nth_equalityI)
  fix i
  assume "i < length (map hand (ps[sj := (ps ! sj)\<lparr>alive := False\<rparr>]))"
  then show "map hand (ps[sj := (ps ! sj)\<lparr>alive := False\<rparr>]) ! i = map hand ps ! i"
    by (cases "i = sj") simp_all
qed simp

lemma bomb_names: "map name (players (bomb sj r s)) = map name (players s)"
  by (simp add: bomb_def Let_def kill_names)

lemma bomb_hands: "map hand (players (bomb sj r s)) = map hand (players s)"
  by (simp add: bomb_def Let_def kill_hands)

lemma bomb_length: "length (players (bomb sj r s)) = length (players s)"
  by (simp add: bomb_def Let_def)

lemma bomb_others: "j \<noteq> sj \<Longrightarrow> players (bomb sj r s) ! j = players s ! j"
  by (simp add: bomb_def Let_def)

lemma bomb_frame:
  "lastPlayedByIndex (bomb sj r s) = lastPlayedByIndex s"
  "deck (bomb sj r s) = deck s"
  "currentPlayerIndex (bomb sj r s) = currentPlayerIndex s"
  "focus (bomb sj r s) = focus s"
  "roundOver (bomb sj r s) = roundOver s"
  "anyQuestionAsked (bomb sj r s) = anyQuestionAsked s"
  by (simp_all add: bomb_def Let_def)

lemma bomb_other_counts:
  "nm \<noteq> name (players s ! sj) \<Longrightarrow> surviveCount (bomb sj r s) nm = surviveCount s nm"
  by (simp add: bomb_def Let_def)

lemma bomb_out:
  "\<exists>e. out (bomb sj r s) = out s @ [e] \<and> \<not> isForced e \<and> decider_of [e] = None"
  by (simp add: bomb_def Let_def)

text \<open>The three outcomes of the bomb for the player it is applied to.\<close>

lemma bomb_third:
  "sj < length (players s) \<Longrightarrow> count_of (surviveCount s) (name (players s ! sj)) \<ge> 2 \<Longrightarrow>
     \<not> alive (players (bomb sj r s) ! sj)
     \<and> count_of (surviveCount (bomb sj r s)) (name (players s ! sj)) = 0"
  by (simp add: bomb_def Let_def count_of_def)

lemma bomb_explodes:
  "sj < length (players s) \<Longrightarrow> r mod 3 = 0 \<Longrightarrow>
     \<not> alive (players (bomb sj r s) ! sj)
     \<and> count_of (surviveCount (bomb sj r s)) (name (players s ! sj)) = 0"
  by (simp add: bomb_def Let_def count_of_def)

lemma bomb_survived:
  "count_of (surviveCount s) (name (players s ! sj)) < 2 \<Longrightarrow> r mod 3 \<noteq> 0 \<Longrightarrow>
     players (bomb sj r s) = players s
     \<and> count_of (surviveCount (bomb sj r s)) (name (players s ! sj))
         = count_of (surviveCount s) (name (players s ! sj)) + 1"
  by (simp add: bomb_def Let_def count_of_def)

lemma bomb_counts_ok: "counts_ok s \<Longrightarrow> counts_ok (bomb sj r s)"
  unfolding counts_ok_def
proof
  fix nm
  assume a: "\<forall>nm. count_of (surviveCount s) nm \<in> {0, 1, 2}"
  then have "count_of (surviveCount s) (name (players s ! sj)) \<in> {0, 1, 2}" by blast
  moreover have "count_of (surviveCount s) nm \<in> {0, 1, 2}" using a by blast
  ultimately show "count_of (surviveCount (bomb sj r s)) nm \<in> {0, 1, 2}"
    by (auto simp: bomb_def Let_def count_of_def)
qed

subsection \<open>Challenge resolution\<close>

lemma handleQuestioning_eq:
  assumes "q < length (players s)"
  shows "handleQuestioning q w played fc r s =
     Some (True, (bomb (atFault q w played fc) r (s\<lparr>out := out s @ faultEvents q w played fc s\<rparr>))
                   \<lparr>currentPlayerIndex := findPlayerIndex (players s) (name (players s ! q))\<rparr>)"
proof -
  have nm: "name (players (bomb sj r s') ! q) = name (players s ! q)"
    if "players s' = players s" for sj s'
  proof -
    have "map name (players (bomb sj r s')) ! q = map name (players s) ! q"
      using that by (simp add: bomb_names)
    then show ?thesis using assms that by (simp add: bomb_length)
  qed
  have fi: "findPlayerIndex (players (bomb sj r s')) n = findPlayerIndex (players s) n"
    if "players s' = players s" for sj s' n
    using that by (intro findPlayerIndex_names) (simp add: bomb_names)
  have ne: "findPlayerIndex (players s) (name (players s ! q)) \<noteq> - 1"
    using assms by (rule findPlayerIndex_found)
  show ?thesis
    using ne
    by (simp add: handleQuestioning_def turnToQuestioner_def Let_def nm fi atFault_def faultEvents_def)
qed

lemma handleQuestioning_link:
  "handleQuestioning q w played fc r s =
     map_option (Pair True)
       (turnToQuestioner
          (name (players (bomb (atFault q w played fc) r (s\<lparr>out := out s @ faultEvents q w played fc s\<rparr>)) ! q))
          (bomb (atFault q w played fc) r (s\<lparr>out := out s @ faultEvents q w played fc s\<rparr>)))"
  by (simp add: handleQuestioning_def Let_def atFault_def faultEvents_def split: option.splits)

lemma turnToQuestioner_result:
  assumes "int (length (players s)) \<le> INT_MAX"
  shows "\<exists>s'. turnToQuestioner nm s = Some s' \<and> s' = s\<lparr>currentPlayerIndex := currentPlayerIndex s'\<rparr> \<and>
           currentPlayerIndex s' =
             (if findPlayerIndex (players s) nm \<noteq> - 1 then findPlayerIndex (players s) nm
              else (case firstAliveWithCardsAfter (players s) (- 1) of
                      Some j \<Rightarrow> int j | None \<Rightarrow> 0))"
proof (cases "findPlayerIndex (players s) nm \<noteq> - 1")
  case True
  then show ?thesis by (simp add: turnToQuestioner_def Let_def)
next
  case False
  have g: "getNextAlivePlayer (players s) (- 1) =
      Some (case firstAliveWithCardsAfter (players s) (- 1) of None \<Rightarrow> - 1 | Some j \<Rightarrow> int j)"
    using assms by (intro getNextAlivePlayer_first) simp_all
  show ?thesis
    using False g by (simp add: turnToQuestioner_def Let_def split: option.splits)
qed

text \<open>
  C5. \<open>handleQuestioning\<close> returns true (the round is over) for every play, focus card
  and outcome of the bomb, and leaves \<open>currentPlayerIndex\<close> at the index that the lookup
  of the questioner's name finds; the lookup finds a questioner who is one of the
  players. Only for a name that the lookup does not find does the turn go to the first
  alive player with cards from seat 0 on (\<open>getNextAlivePlayer(-1)\<close>), and to seat 0 when
  there is none.
\<close>

theorem handleQuestioning_ends_round:
  "int (length (players s)) \<le> INT_MAX \<longrightarrow>
     (\<exists>s'. handleQuestioning q w played fc r s = Some (True, s')
        \<and> currentPlayerIndex s' =
            (if findPlayerIndex (players s') (name (players s' ! q)) \<noteq> - 1
             then findPlayerIndex (players s') (name (players s' ! q))
             else (case firstAliveWithCardsAfter (players s') (- 1) of
                     Some j \<Rightarrow> int j | None \<Rightarrow> 0))
        \<and> (q < length (players s) \<longrightarrow>
              findPlayerIndex (players s') (name (players s' ! q)) \<noteq> - 1
              \<and> name (players s' ! nat (currentPlayerIndex s')) = name (players s ! q)))
     \<and> (\<exists>s'. turnToQuestioner nm s = Some s'
        \<and> currentPlayerIndex s' =
            (if findPlayerIndex (players s) nm \<noteq> - 1 then findPlayerIndex (players s) nm
             else (case firstAliveWithCardsAfter (players s) (- 1) of
                     Some j \<Rightarrow> int j | None \<Rightarrow> 0)))"
proof
  assume len: "int (length (players s)) \<le> INT_MAX"
  let ?b = "bomb (atFault q w played fc) r (s\<lparr>out := out s @ faultEvents q w played fc s\<rparr>)"
  have lb: "int (length (players ?b)) \<le> INT_MAX" using len by (simp add: bomb_length)
  from turnToQuestioner_result [OF lb, of "name (players ?b ! q)"]
  obtain s' where s': "turnToQuestioner (name (players ?b ! q)) ?b = Some s'"
    "s' = ?b\<lparr>currentPlayerIndex := currentPlayerIndex s'\<rparr>"
    "currentPlayerIndex s' =
       (if findPlayerIndex (players ?b) (name (players ?b ! q)) \<noteq> - 1
        then findPlayerIndex (players ?b) (name (players ?b ! q))
        else (case firstAliveWithCardsAfter (players ?b) (- 1) of Some j \<Rightarrow> int j | None \<Rightarrow> 0))"
    by blast
  have ps: "players s' = players ?b" by (subst s'(2)) simp
  have hq: "handleQuestioning q w played fc r s = Some (True, s')"
    by (simp add: handleQuestioning_link s'(1))
  have found: "findPlayerIndex (players s') (name (players s' ! q)) \<noteq> - 1
      \<and> name (players s' ! nat (currentPlayerIndex s')) = name (players s ! q)"
    if q: "q < length (players s)"
  proof -
    have qb: "q < length (players s')" using q by (simp add: ps bomb_length)
    then have ne: "findPlayerIndex (players s') (name (players s' ! q)) \<noteq> - 1"
      by (rule findPlayerIndex_found)
    have "map name (players ?b) ! q = map name (players s) ! q"
      by (simp add: bomb_names)
    then have nq: "name (players ?b ! q) = name (players s ! q)"
      using q by (simp add: bomb_length)
    have c: "currentPlayerIndex s' = findPlayerIndex (players s') (name (players s' ! q))"
      using s'(3) ne by (simp add: ps)
    have "name (players s' ! nat (findPlayerIndex (players s') (name (players s' ! q))))
        = name (players s' ! q)"
      using findPlayerIndex_range [OF ne] by simp
    also have "\<dots> = name (players s ! q)" using nq by (simp add: ps)
    finally show ?thesis using ne c by simp
  qed
  have cpi: "currentPlayerIndex s' =
            (if findPlayerIndex (players s') (name (players s' ! q)) \<noteq> - 1
             then findPlayerIndex (players s') (name (players s' ! q))
             else (case firstAliveWithCardsAfter (players s') (- 1) of
                     Some j \<Rightarrow> int j | None \<Rightarrow> 0))"
    unfolding ps by (fact s'(3))
  have first: "\<exists>s'. handleQuestioning q w played fc r s = Some (True, s')
        \<and> currentPlayerIndex s' =
            (if findPlayerIndex (players s') (name (players s' ! q)) \<noteq> - 1
             then findPlayerIndex (players s') (name (players s' ! q))
             else (case firstAliveWithCardsAfter (players s') (- 1) of
                     Some j \<Rightarrow> int j | None \<Rightarrow> 0))
        \<and> (q < length (players s) \<longrightarrow>
              findPlayerIndex (players s') (name (players s' ! q)) \<noteq> - 1
              \<and> name (players s' ! nat (currentPlayerIndex s')) = name (players s ! q))"
    using hq cpi found by blast
  from turnToQuestioner_result [OF len, of nm]
  have second: "\<exists>s'. turnToQuestioner nm s = Some s'
        \<and> currentPlayerIndex s' =
            (if findPlayerIndex (players s) nm \<noteq> - 1 then findPlayerIndex (players s) nm
             else (case firstAliveWithCardsAfter (players s) (- 1) of
                     Some j \<Rightarrow> int j | None \<Rightarrow> 0))"
    by blast
  from first second show "(\<exists>s'. handleQuestioning q w played fc r s = Some (True, s')
        \<and> currentPlayerIndex s' =
            (if findPlayerIndex (players s') (name (players s' ! q)) \<noteq> - 1
             then findPlayerIndex (players s') (name (players s' ! q))
             else (case firstAliveWithCardsAfter (players s') (- 1) of
                     Some j \<Rightarrow> int j | None \<Rightarrow> 0))
        \<and> (q < length (players s) \<longrightarrow>
              findPlayerIndex (players s') (name (players s' ! q)) \<noteq> - 1
              \<and> name (players s' ! nat (currentPlayerIndex s')) = name (players s ! q)))
     \<and> (\<exists>s'. turnToQuestioner nm s = Some s'
        \<and> currentPlayerIndex s' =
            (if findPlayerIndex (players s) nm \<noteq> - 1 then findPlayerIndex (players s) nm
             else (case firstAliveWithCardsAfter (players s) (- 1) of
                     Some j \<Rightarrow> int j | None \<Rightarrow> 0)))"
    by (rule conjI)
qed

theorem handleQuestioning_ends_round_witness:
  "int (length (players ex_state)) \<le> INT_MAX \<and> (2::nat) < length (players ex_state)
   \<and> (\<exists>s'. handleQuestioning 2 1 [''Sun''] ''Moon'' 4 ex_state = Some (True, s')
          \<and> currentPlayerIndex s' = 2)
   \<and> (\<exists>s'. turnToQuestioner ''Nobody'' ex_state = Some s' \<and> currentPlayerIndex s' = 1)"
proof -
  have len: "int (length (players ex_state)) \<le> INT_MAX" by code_simp
  have q: "(2::nat) < length (players ex_state)" by code_simp
  from handleQuestioning_ends_round [of ex_state 2 1 "[''Sun'']" "''Moon''" 4 "''Nobody''"] len q
  obtain s' s'' where h: "handleQuestioning 2 1 [''Sun''] ''Moon'' 4 ex_state = Some (True, s')"
    and c: "currentPlayerIndex s' = findPlayerIndex (players s') (name (players s' ! 2))"
    and t: "turnToQuestioner ''Nobody'' ex_state = Some s''"
    and f: "currentPlayerIndex s'' =
       (if findPlayerIndex (players ex_state) ''Nobody'' \<noteq> - 1
        then findPlayerIndex (players ex_state) ''Nobody''
        else (case firstAliveWithCardsAfter (players ex_state) (- 1) of
                Some j \<Rightarrow> int j | None \<Rightarrow> 0))"
    by auto
  have "map_option (\<lambda>(b, s). map name (players s)) (handleQuestioning 2 1 [''Sun''] ''Moon'' 4 ex_state)
      = Some [''Human'', ''Bot1'', ''Bot2'', ''Bot3'']"
    by code_simp
  with h have names: "map name (players s') = [''Human'', ''Bot1'', ''Bot2'', ''Bot3'']" by simp
  have "name (players s' ! 2) = map name (players s') ! 2"
    using names by (intro nth_map [symmetric]) (metis length_map length_Cons list.size(3) numeral_2_eq_2 lessI less_SucI)
  then have n2: "name (players s' ! 2) = ''Bot2''" using names by simp
  have "findPlayerIndex (players s') ''Bot2'' = findPlayerIndex (players ex_state) ''Bot2''"
    by (rule findPlayerIndex_names) (simp add: names ex_state_def)
  also have "\<dots> = 2" by code_simp
  finally have c2: "currentPlayerIndex s' = 2" using c n2 by simp
  have "(if findPlayerIndex (players ex_state) ''Nobody'' \<noteq> - 1
        then findPlayerIndex (players ex_state) ''Nobody''
        else (case firstAliveWithCardsAfter (players ex_state) (- 1) of
                Some j \<Rightarrow> int j | None \<Rightarrow> 0)) = 1"
    by code_simp
  with f have f1: "currentPlayerIndex s'' = 1" by simp
  from len q h c2 t f1 show ?thesis by blast
qed

lemma handleQuestioning_players:
  assumes "handleQuestioning q w played fc r s = Some (b, s')"
  shows "players s' = players (bomb (atFault q w played fc) r s)"
    and "surviveCount s' = surviveCount (bomb (atFault q w played fc) r s)"
    and "lastPlayedByIndex s' = lastPlayedByIndex s" and "deck s' = deck s"
    and "focus s' = focus s" and "roundOver s' = roundOver s"
    and "anyQuestionAsked s' = anyQuestionAsked s" and "b = True"
proof -
  let ?s1 = "s\<lparr>out := out s @ faultEvents q w played fc s\<rparr>"
  let ?b = "bomb (atFault q w played fc) r ?s1"
  from assms obtain s2 where t: "turnToQuestioner (name (players ?b ! q)) ?b = Some s2"
    and e: "s' = s2" "b = True"
    by (auto simp: handleQuestioning_link)
  from t have "\<exists>c. s2 = ?b\<lparr>currentPlayerIndex := c\<rparr>"
    by (auto simp: turnToQuestioner_def Let_def split: if_splits option.splits)
  then obtain c where s2: "s' = ?b\<lparr>currentPlayerIndex := c\<rparr>" using e by blast
  have pb: "players ?b = players (bomb (atFault q w played fc) r s)"
    and sb: "surviveCount ?b = surviveCount (bomb (atFault q w played fc) r s)"
    by (simp_all add: bomb_def Let_def)
  show "players s' = players (bomb (atFault q w played fc) r s)" using s2 pb by simp
  show "surviveCount s' = surviveCount (bomb (atFault q w played fc) r s)" using s2 sb by simp
  show "lastPlayedByIndex s' = lastPlayedByIndex s" using s2 by (simp add: bomb_frame)
  show "deck s' = deck s" using s2 by (simp add: bomb_frame)
  show "focus s' = focus s" using s2 by (simp add: bomb_frame)
  show "roundOver s' = roundOver s" using s2 by (simp add: bomb_frame)
  show "anyQuestionAsked s' = anyQuestionAsked s" using s2 by (simp add: bomb_frame)
  show "b = True" by (fact e(2))
qed

text \<open>
  C9. A call of \<open>handleQuestioning\<close> changes the alive flag and the survive counter of no
  player but the one at fault: the player who played when \<open>playIsCorrect\<close> is false, the
  questioner when it is true. Every other player is as before, with the same survive
  counter; the player at fault keeps name and hand; \<open>lastPlayedByIndex\<close> and the deck
  are as before. (The names of the players are distinct, as the constructor makes them.)
\<close>

theorem handleQuestioning_frame:
  assumes "distinct (map name (players s))"
    and "q < length (players s)" and "w < length (players s)"
    and "handleQuestioning q w played fc r s = Some (b, s')"
  shows "length (players s') = length (players s)
    \<and> (\<forall>j < length (players s). j \<noteq> (if playIsCorrect played fc then q else w) \<longrightarrow>
          players s' ! j = players s ! j
          \<and> count_of (surviveCount s') (name (players s' ! j))
              = count_of (surviveCount s) (name (players s ! j)))
    \<and> map hand (players s') = map hand (players s)
    \<and> map name (players s') = map name (players s)
    \<and> lastPlayedByIndex s' = lastPlayedByIndex s
    \<and> deck s' = deck s"
proof -
  let ?sj = "if playIsCorrect played fc then q else w"
  note h = handleQuestioning_players [OF assms(4), unfolded atFault_def]
  have sj: "?sj < length (players s)" using assms(2,3) by simp
  have others: "players s' ! j = players s ! j
      \<and> count_of (surviveCount s') (name (players s' ! j))
          = count_of (surviveCount s) (name (players s ! j))"
    if j: "j < length (players s)" "j \<noteq> ?sj" for j
  proof -
    have p: "players s' ! j = players s ! j" using j(2) by (simp add: h(1) bomb_others)
    have "map name (players s) ! j \<noteq> map name (players s) ! ?sj"
      using assms(1) j sj by (simp only: nth_eq_iff_index_eq length_map not_False_eq_True)
    then have "name (players s ! j) \<noteq> name (players s ! ?sj)" using j(1) sj by simp
    then have "surviveCount s' (name (players s ! j)) = surviveCount s (name (players s ! j))"
      by (simp add: h(2) bomb_other_counts)
    with p show ?thesis by (simp add: count_of_def)
  qed
  have len: "length (players s') = length (players s)" by (simp add: h(1) bomb_length)
  have hands: "map hand (players s') = map hand (players s)" by (simp add: h(1) bomb_hands)
  have names: "map name (players s') = map name (players s)" by (simp add: h(1) bomb_names)
  from len others hands names h(3) h(4) show ?thesis by blast
qed

theorem handleQuestioning_frame_witness:
  "distinct (map name (players ex_state)) \<and> (2::nat) < length (players ex_state)
   \<and> (1::nat) < length (players ex_state)
   \<and> (\<exists>b s'. handleQuestioning 2 1 [''Sun''] ''Moon'' 4 ex_state = Some (b, s')
         \<and> players s' ! 0 = players ex_state ! 0
         \<and> players s' ! 2 = players ex_state ! 2
         \<and> count_of (surviveCount s') ''Bot3'' = 1
         \<and> map hand (players s') = map hand (players ex_state)
         \<and> lastPlayedByIndex s' = lastPlayedByIndex ex_state)"
proof -
  have d: "distinct (map name (players ex_state))" by code_simp
  have q: "(2::nat) < length (players ex_state)" by code_simp
  have w: "(1::nat) < length (players ex_state)" by code_simp
  have "handleQuestioning 2 1 [''Sun''] ''Moon'' 4 ex_state \<noteq> None" by code_simp
  then obtain b s' where h: "handleQuestioning 2 1 [''Sun''] ''Moon'' 4 ex_state = Some (b, s')"
    by auto
  have nc: "\<not> playIsCorrect [''Sun''] ''Moon''" by code_simp
  note fr = handleQuestioning_frame [OF d q w h]
  have l: "length (players ex_state) = 4" by code_simp
  from fr nc l have others: "players s' ! j = players ex_state ! j
      \<and> count_of (surviveCount s') (name (players s' ! j))
          = count_of (surviveCount ex_state) (name (players ex_state ! j))"
    if "j < 4" "j \<noteq> 1" for j
    using that by auto
  from others [of 0] have p0: "players s' ! 0 = players ex_state ! 0" by simp
  from others [of 2] have p2: "players s' ! 2 = players ex_state ! 2" by simp
  have "name (players ex_state ! 3) = ''Bot3''" by code_simp
  moreover have "count_of (surviveCount ex_state) ''Bot3'' = 1" by code_simp
  ultimately have c3: "count_of (surviveCount s') ''Bot3'' = 1" using others [of 3] by auto
  from fr have "map hand (players s') = map hand (players ex_state)"
    and "lastPlayedByIndex s' = lastPlayedByIndex ex_state" by simp_all
  with d q w h p0 p2 c3 show ?thesis by blast
qed

subsection \<open>The turn in parts\<close>

lemma removeChosen_loop_name:
  "removeChosen_loop ch p played = Some (played', p') \<Longrightarrow> name p' = name p \<and> alive p' = alive p"
  by (induction ch p played rule: removeChosen_loop.induct)
     (auto simp: removeCardAt_def split: option.splits if_splits)

lemma humanPlay_name:
  "humanPlay ch p = Some (played, p') \<Longrightarrow> name p' = name p \<and> alive p' = alive p"
  by (auto simp: humanPlay_def split: option.splits dest: removeChosen_loop_name)

lemma playCards_name:
  "playCards n p = (played, p') \<Longrightarrow> name p' = name p \<and> alive p' = alive p"
  by (auto simp: playCards_def split: prod.splits)

lemma humanTurn_parts:
  assumes "at (players s) (currentPlayerIndex s) = Some cur" "name cur = ''Human''"
  shows "humanTurn inp s = playPart inp s \<bind> decisionPart inp True"
proof (cases "humanPlay (chosen inp) cur")
  case None
  with assms show ?thesis by (simp add: humanTurn_def playPart_def)
next
  case (Some a)
  obtain played p' where a: "a = (played, p')" by (cases a)
  show ?thesis
  proof (cases "storeLastPlayed (name p') played
             (s\<lparr>players := (players s)[nat (currentPlayerIndex s) := p']\<rparr>)")
    case None
    with assms Some a show ?thesis by (simp add: humanTurn_def playPart_def)
  next
    case (Some s1)
    with assms \<open>humanPlay (chosen inp) cur = Some a\<close> a show ?thesis
      by (simp add: humanTurn_def playPart_def decisionPart_def rollPart_def Let_def cong: if_cong)
  qed
qed

lemma botTurn_parts:
  assumes "at (players s) (currentPlayerIndex s) = Some cur" "name cur \<noteq> ''Human''"
  shows "botTurn inp s = playPart inp s \<bind> decisionPart inp False"
proof -
  obtain played p' where a: "playCards (int (rand_count inp mod 3) + 1) cur = (played, p')"
    by (cases "playCards (int (rand_count inp mod 3) + 1) cur")
  then have n: "name p' = name cur" by (simp add: playCards_name)
  show ?thesis
  proof (cases "storeLastPlayed (name p') played
             (s\<lparr>players := (players s)[nat (currentPlayerIndex s) := p']\<rparr>)")
    case None
    with assms a show ?thesis by (simp add: botTurn_def playPart_def)
  next
    case (Some s1)
    with assms a n show ?thesis
      by (simp add: botTurn_def playPart_def decisionPart_def rollPart_def askPart_def Let_def
          cong: if_cong)
  qed
qed

lemma decisionPart_flow: "decisionPart inp h s = Some (fl, s') \<Longrightarrow> fl \<noteq> Continue"
  by (auto simp: decisionPart_def rollPart_def askPart_def split: Option.bind_splits if_splits)

lemma turn_parts:
  "turn inp s =
     (if countAliveWithCards (players s) \<le> 1 then Some (Break, s)
      else (case at (players s) (currentPlayerIndex s) of
              None \<Rightarrow> None
            | Some cur \<Rightarrow>
                if \<not> alive cur \<or> hand cur = [] then
                  (case getNextAlivePlayer (players s) (currentPlayerIndex s) of
                     None \<Rightarrow> None
                   | Some nxt \<Rightarrow>
                       if nxt = - 1 then Some (Break, s\<lparr>roundOver := True\<rparr>)
                       else Some (Continue, s\<lparr>currentPlayerIndex := nxt\<rparr>))
                else playPart inp s \<bind> decisionPart inp (name cur = ''Human'')))"
proof (cases "at (players s) (currentPlayerIndex s)")
  case None
  then show ?thesis by (simp add: turn_def)
next
  case (Some cur)
  show ?thesis
  proof (cases "name cur = ''Human''")
    case True
    with Some humanTurn_parts [OF Some True, of inp] show ?thesis
      by (simp add: turn_def split: option.splits)
  next
    case False
    with Some botTurn_parts [OF Some False, of inp] show ?thesis
      by (simp add: turn_def split: option.splits)
  qed
qed

lemma turn_Continue:
  assumes "turn inp s = Some (Continue, s')"
  shows "\<exists>nxt. getNextAlivePlayer (players s) (currentPlayerIndex s) = Some nxt \<and> nxt \<noteq> - 1
           \<and> s' = s\<lparr>currentPlayerIndex := nxt\<rparr>"
  using assms
  by (auto simp: turn_parts split: if_splits option.splits Option.bind_splits dest: decisionPart_flow)

lemma advance_Fallthrough:
  assumes "advance s = Some (Fallthrough, s')" "\<not> roundOver s"
  shows "\<exists>nxt. getNextAlivePlayer (players s) (currentPlayerIndex s) = Some nxt \<and> nxt \<noteq> - 1
           \<and> s' = s\<lparr>currentPlayerIndex := nxt\<rparr>"
  using assms by (auto simp: advance_def split: if_splits Option.bind_splits)

text \<open>
  C4. An index that \<open>getNextAlivePlayer\<close> returns, other than -1, is the index of a player
  who is alive and holds cards; when no player is alive with cards it returns -1. The
  skip step and the step at the end of the loop body move the turn only to such an
  index, and leave the loop by \<open>break\<close> when the lookup gives -1.
\<close>

theorem turn_advancement:
  "(getNextAlivePlayer ps start = Some idx \<and> idx \<noteq> - 1 \<longrightarrow>
      0 \<le> idx \<and> idx < int (length ps) \<and> alive (ps ! nat idx) \<and> hand (ps ! nat idx) \<noteq> [])
   \<and> (- 1 \<le> start \<and> start + int (length ps) \<le> INT_MAX
        \<and> (\<forall>p \<in> set ps. \<not> (alive p \<and> hand p \<noteq> [])) \<longrightarrow>
      getNextAlivePlayer ps start = Some (- 1))
   \<and> (turn inp s = Some (Continue, s') \<longrightarrow>
      players s' = players s
      \<and> 0 \<le> currentPlayerIndex s' \<and> currentPlayerIndex s' < int (length (players s'))
      \<and> alive (players s' ! nat (currentPlayerIndex s'))
      \<and> hand (players s' ! nat (currentPlayerIndex s')) \<noteq> [])
   \<and> (\<not> roundOver s \<and> advance s = Some (Fallthrough, s') \<longrightarrow>
      players s' = players s
      \<and> 0 \<le> currentPlayerIndex s' \<and> currentPlayerIndex s' < int (length (players s'))
      \<and> alive (players s' ! nat (currentPlayerIndex s'))
      \<and> hand (players s' ! nat (currentPlayerIndex s')) \<noteq> [])
   \<and> (at (players s) (currentPlayerIndex s) = Some cur \<and> (\<not> alive cur \<or> hand cur = [])
        \<and> getNextAlivePlayer (players s) (currentPlayerIndex s) = Some (- 1) \<longrightarrow>
      (\<exists>s''. turn inp s = Some (Break, s'')))
   \<and> (\<not> roundOver s \<and> getNextAlivePlayer (players s) (currentPlayerIndex s) = Some (- 1) \<longrightarrow>
      advance s = Some (Break, s\<lparr>roundOver := True\<rparr>))"
proof (intro conjI impI)
  assume "getNextAlivePlayer ps start = Some idx \<and> idx \<noteq> - 1"
  then have "0 \<le> idx \<and> idx < int (length ps) \<and> alive (ps ! nat idx) \<and> hand (ps ! nat idx) \<noteq> []"
    using getNextAlivePlayer_sound by blast
  then show "0 \<le> idx" "idx < int (length ps)" "alive (ps ! nat idx)" "hand (ps ! nat idx) \<noteq> []"
    by simp_all
next
  assume "- 1 \<le> start \<and> start + int (length ps) \<le> INT_MAX
        \<and> (\<forall>p \<in> set ps. \<not> (alive p \<and> hand p \<noteq> []))"
  then show "getNextAlivePlayer ps start = Some (- 1)"
    using getNextAlivePlayer_none by blast
next
  assume "turn inp s = Some (Continue, s')"
  from turn_Continue [OF this] obtain nxt where
    n: "getNextAlivePlayer (players s) (currentPlayerIndex s) = Some nxt" "nxt \<noteq> - 1"
      "s' = s\<lparr>currentPlayerIndex := nxt\<rparr>" by blast
  from getNextAlivePlayer_sound [OF n(1,2)] n(3)
  show "players s' = players s" "0 \<le> currentPlayerIndex s'"
    "currentPlayerIndex s' < int (length (players s'))"
    "alive (players s' ! nat (currentPlayerIndex s'))"
    "hand (players s' ! nat (currentPlayerIndex s')) \<noteq> []"
    by simp_all
next
  assume a: "\<not> roundOver s \<and> advance s = Some (Fallthrough, s')"
  then have "advance s = Some (Fallthrough, s')" "\<not> roundOver s" by simp_all
  from advance_Fallthrough [OF this] obtain nxt where
    n: "getNextAlivePlayer (players s) (currentPlayerIndex s) = Some nxt" "nxt \<noteq> - 1"
      "s' = s\<lparr>currentPlayerIndex := nxt\<rparr>" by blast
  from getNextAlivePlayer_sound [OF n(1,2)] n(3)
  show "players s' = players s" "0 \<le> currentPlayerIndex s'"
    "currentPlayerIndex s' < int (length (players s'))"
    "alive (players s' ! nat (currentPlayerIndex s'))"
    "hand (players s' ! nat (currentPlayerIndex s')) \<noteq> []"
    by simp_all
next
  assume "at (players s) (currentPlayerIndex s) = Some cur \<and> (\<not> alive cur \<or> hand cur = [])
        \<and> getNextAlivePlayer (players s) (currentPlayerIndex s) = Some (- 1)"
  then show "\<exists>s''. turn inp s = Some (Break, s'')"
    by (auto simp: turn_parts)
next
  assume "\<not> roundOver s \<and> getNextAlivePlayer (players s) (currentPlayerIndex s) = Some (- 1)"
  then show "advance s = Some (Break, s\<lparr>roundOver := True\<rparr>)"
    by (simp add: advance_def)
qed

theorem turn_advancement_witness:
  "getNextAlivePlayer (players ex_state) 1 = Some 2
   \<and> alive (players ex_state ! 2) \<and> hand (players ex_state ! 2) \<noteq> []
   \<and> getNextAlivePlayer ex_dead 0 = Some (- 1)
   \<and> (\<exists>s'. turn ex_inputs (ex_state\<lparr>currentPlayerIndex := 0\<rparr>) = Some (Continue, s')
         \<and> alive (players s' ! nat (currentPlayerIndex s'))
         \<and> hand (players s' ! nat (currentPlayerIndex s')) \<noteq> [])
   \<and> (\<exists>s'. advance ex_state = Some (Fallthrough, s')
         \<and> alive (players s' ! nat (currentPlayerIndex s'))
         \<and> hand (players s' ! nat (currentPlayerIndex s')) \<noteq> [])
   \<and> (\<exists>s'. turn ex_inputs (ex_state\<lparr>players := ex_dead, currentPlayerIndex := 0\<rparr>)
           = Some (Break, s'))
   \<and> advance (ex_state\<lparr>players := ex_dead, currentPlayerIndex := 0\<rparr>)
       = Some (Break, ex_state\<lparr>players := ex_dead, currentPlayerIndex := 0, roundOver := True\<rparr>)"
proof -
  let ?s0 = "ex_state\<lparr>currentPlayerIndex := 0\<rparr>"
  let ?sd = "ex_state\<lparr>players := ex_dead, currentPlayerIndex := 0\<rparr>"
  have g: "getNextAlivePlayer (players ex_state) 1 = Some 2 \<and> (2::int) \<noteq> - 1" by code_simp
  have n: "- 1 \<le> (0::int) \<and> 0 + int (length ex_dead) \<le> INT_MAX
      \<and> (\<forall>p \<in> set ex_dead. \<not> (alive p \<and> hand p \<noteq> []))" by code_simp
  have "map_option fst (turn ex_inputs ?s0) = Some Continue" by code_simp
  then obtain s1 where t: "turn ex_inputs ?s0 = Some (Continue, s1)" by auto
  have "\<not> roundOver ex_state \<and> map_option fst (advance ex_state) = Some Fallthrough" by code_simp
  then obtain s2 where a: "\<not> roundOver ex_state \<and> advance ex_state = Some (Fallthrough, s2)" by auto
  have k: "at (players ?sd) (currentPlayerIndex ?sd) = Some \<lparr>name = ''Human'', hand = [''Sun''], alive = False\<rparr>
      \<and> (\<not> alive \<lparr>name = ''Human'', hand = [''Sun''], alive = False\<rparr>
          \<or> hand \<lparr>name = ''Human'', hand = [''Sun''], alive = False\<rparr> = [])
      \<and> getNextAlivePlayer (players ?sd) (currentPlayerIndex ?sd) = Some (- 1)" by code_simp
  have r: "\<not> roundOver ?sd \<and> getNextAlivePlayer (players ?sd) (currentPlayerIndex ?sd) = Some (- 1)"
    by code_simp
  note w1 = turn_advancement [where ps = "players ex_state" and start = 1 and idx = 2
      and inp = ex_inputs and s = ?s0 and s' = s1]
  note w2 = turn_advancement [where ps = ex_dead and start = 0 and s = ex_state and s' = s2]
  note w3 = turn_advancement [where inp = ex_inputs and s = ?sd
      and cur = "\<lparr>name = ''Human'', hand = [''Sun''], alive = False\<rparr>"]
  from w1 g have c1: "alive (players ex_state ! 2) \<and> hand (players ex_state ! 2) \<noteq> []" by simp
  from w2 n have c2: "getNextAlivePlayer ex_dead 0 = Some (- 1)" by blast
  from w1 t have c3: "alive (players s1 ! nat (currentPlayerIndex s1))
      \<and> hand (players s1 ! nat (currentPlayerIndex s1)) \<noteq> []" by blast
  from w2 a have c4: "alive (players s2 ! nat (currentPlayerIndex s2))
      \<and> hand (players s2 ! nat (currentPlayerIndex s2)) \<noteq> []" by blast
  from w3 k have c5: "\<exists>s'. turn ex_inputs ?sd = Some (Break, s')" by blast
  from w3 r have c6: "advance ?sd = Some (Break, ?sd\<lparr>roundOver := True\<rparr>)" by blast
  from g c1 c2 t c3 a c4 c5 c6 show ?thesis by (simp del: One_nat_def)
qed

subsection \<open>What the parts of the loop body keep\<close>

lemma steady_refl: "steady s s"
  by (simp add: steady_def)

lemma steady_trans: "steady s s1 \<Longrightarrow> steady s1 s2 \<Longrightarrow> steady s s2"
  by (auto simp: steady_def)

lemma quiet_refl: "quiet s s"
  by (simp add: quiet_def)

lemma quiet_trans: "quiet s s1 \<Longrightarrow> quiet s1 s2 \<Longrightarrow> quiet s s2"
  by (auto simp: quiet_def)

lemma quiet_not_fired: "quiet s s' \<Longrightarrow> \<not> forcedFired s s'"
  by (auto simp: quiet_def forcedFired_def emitted_def)

lemma handleQuestioning_out:
  assumes "handleQuestioning q w played fc r s = Some (b, s')"
  shows "\<exists>evs. out s' = out s @ evs \<and> \<not> list_ex isForced evs \<and> decider_of evs = None"
proof -
  let ?s1 = "s\<lparr>out := out s @ faultEvents q w played fc s\<rparr>"
  let ?b = "bomb (atFault q w played fc) r ?s1"
  from assms obtain s2 where t: "turnToQuestioner (name (players ?b ! q)) ?b = Some s2"
    and e: "s' = s2"
    by (auto simp: handleQuestioning_link)
  from t have "out s2 = out ?b"
    by (auto simp: turnToQuestioner_def Let_def split: if_splits option.splits)
  moreover from bomb_out [of "atFault q w played fc" r ?s1]
  obtain ev where "out ?b = out ?s1 @ [ev]" "\<not> isForced ev" "decider_of [ev] = None" by blast
  ultimately have "out s' = out s @ (faultEvents q w played fc s @ [ev])
      \<and> \<not> list_ex isForced (faultEvents q w played fc s @ [ev])
      \<and> decider_of (faultEvents q w played fc s @ [ev]) = None"
    using e by (simp add: faultEvents_def)
  then show ?thesis by blast
qed

lemma handleQuestioning_steady:
  assumes "handleQuestioning q w played fc r s = Some (b, s')"
  shows "steady s s'"
proof -
  note h = handleQuestioning_players [OF assms]
  from handleQuestioning_out [OF assms] obtain evs where "out s' = out s @ evs" by blast
  moreover have "counts_ok s \<longrightarrow> counts_ok s'"
    using bomb_counts_ok [of s "atFault q w played fc" r] by (simp add: counts_ok_def h(2))
  ultimately show ?thesis
    by (simp add: steady_def h bomb_names)
qed

lemma questionPrevious_Some:
  assumes "questionPrevious nxt cur r s = Some s'"
  shows "\<exists>toCheck s''. handleQuestioning (nat nxt) (nat cur) toCheck (focus s) r s = Some (True, s'')
           \<and> s' = s''\<lparr>roundOver := True, anyQuestionAsked := True\<rparr>"
proof -
  from assms obtain toCheck b s'' where
    h: "handleQuestioning (nat nxt) (nat cur) toCheck (focus s) r s = Some (b, s'')"
    and e: "s' = s''\<lparr>roundOver := b, anyQuestionAsked := True\<rparr>"
    by (auto simp: questionPrevious_def split: Option.bind_splits)
  from handleQuestioning_players(8) [OF h] h e show ?thesis by blast
qed

lemma questionPrevious_effect:
  assumes "questionPrevious nxt cur r s = Some s'"
  shows "roundOver s'" and "anyQuestionAsked s'" and "steady s s'"
    and "\<exists>evs. out s' = out s @ evs \<and> \<not> list_ex isForced evs \<and> decider_of evs = None"
proof -
  from questionPrevious_Some [OF assms] obtain toCheck s'' where
    h: "handleQuestioning (nat nxt) (nat cur) toCheck (focus s) r s = Some (True, s'')"
    and e: "s' = s''\<lparr>roundOver := True, anyQuestionAsked := True\<rparr>" by blast
  show "roundOver s'" "anyQuestionAsked s'" using e by simp_all
  have "steady s'' s'" using e by (simp add: steady_def counts_ok_def)
  with handleQuestioning_steady [OF h] show "steady s s'" by (rule steady_trans)
  from handleQuestioning_out [OF h] e
  show "\<exists>evs. out s' = out s @ evs \<and> \<not> list_ex isForced evs \<and> decider_of evs = None" by simp
qed

lemma storeLastPlayed_Some:
  "storeLastPlayed nm played s = Some s' \<Longrightarrow>
     \<exists>l. s' = s\<lparr>lastPlayedByIndex := l\<rparr> \<and> length l = length (lastPlayedByIndex s)"
proof (cases "findPlayerIndex (players s) nm \<noteq> - 1")
  case True
  assume "storeLastPlayed nm played s = Some s'"
  with True have "s' = s\<lparr>lastPlayedByIndex :=
      (lastPlayedByIndex s)[nat (findPlayerIndex (players s) nm) := played]\<rparr>"
    by (auto simp: storeLastPlayed_def Let_def split: if_splits)
  then show ?thesis by (intro exI [of _ "(lastPlayedByIndex s)[nat (findPlayerIndex (players s) nm) := played]"]) simp
next
  case False
  assume "storeLastPlayed nm played s = Some s'"
  with False have "s' = s" by (simp add: storeLastPlayed_def)
  then show ?thesis by (intro exI [of _ "lastPlayedByIndex s"]) simp
qed

lemma playPart_Some:
  assumes "playPart inp s = Some s2"
  shows "\<exists>cur (played :: string list) p' l.
           at (players s) (currentPlayerIndex s) = Some cur
           \<and> name p' = name cur \<and> alive p' = alive cur
           \<and> length l = length (lastPlayedByIndex s)
           \<and> s2 = s\<lparr>players := (players s)[nat (currentPlayerIndex s) := p'],
                     lastPlayedByIndex := l,
                     out := out s @ [HiddenPlay (name cur) (length played)]\<rparr>"
proof -
  from assms obtain cur played p' s1 where
    c: "at (players s) (currentPlayerIndex s) = Some cur"
    and p: "(if name cur = ''Human'' then humanPlay (chosen inp) cur
             else Some (playCards (int (rand_count inp mod 3) + 1) cur)) = Some (played, p')"
    and st: "storeLastPlayed (name p') played
               (s\<lparr>players := (players s)[nat (currentPlayerIndex s) := p']\<rparr>) = Some s1"
    and e: "s2 = s1\<lparr>out := out s1 @ [HiddenPlay (name cur) (length played)]\<rparr>"
    by (auto simp: playPart_def split: Option.bind_splits)
  from p have n: "name p' = name cur \<and> alive p' = alive cur"
    by (auto split: if_splits dest: humanPlay_name playCards_name)
  from storeLastPlayed_Some [OF st] obtain l where
    s1: "s1 = s\<lparr>players := (players s)[nat (currentPlayerIndex s) := p'], lastPlayedByIndex := l\<rparr>"
    and l: "length l = length (lastPlayedByIndex s)" by auto
  have e': "s2 = s\<lparr>players := (players s)[nat (currentPlayerIndex s) := p'],
                     lastPlayedByIndex := l,
                     out := out s @ [HiddenPlay (name cur) (length played)]\<rparr>"
    by (simp add: e s1)
  show ?thesis
    by (rule exI [of _ cur], rule exI [of _ played], rule exI [of _ "p'"], rule exI [of _ l])
      (simp add: c n l e')
qed

lemma playPart_effect:
  assumes "playPart inp s = Some s2"
  shows "steady s s2" and "quiet s s2"
    and "currentPlayerIndex s2 = currentPlayerIndex s"
    and "roundOver s2 = roundOver s" and "anyQuestionAsked s2 = anyQuestionAsked s"
    and "map alive (players s2) = map alive (players s)"
    and "decider_of (emitted s s2) = None"
proof -
  from playPart_Some [OF assms] obtain cur and played :: "string list" and p' l where
    c: "at (players s) (currentPlayerIndex s) = Some cur"
    and n: "name p' = name cur" "alive p' = alive cur"
    and l: "length l = length (lastPlayedByIndex s)"
    and e: "s2 = s\<lparr>players := (players s)[nat (currentPlayerIndex s) := p'],
                     lastPlayedByIndex := l,
                     out := out s @ [HiddenPlay (name cur) (length played)]\<rparr>" by blast
  from c have r: "nat (currentPlayerIndex s) < length (players s)"
    and cur: "cur = players s ! nat (currentPlayerIndex s)"
    by (auto simp: at_def split: if_splits)
  have nm: "map name ((players s)[nat (currentPlayerIndex s) := p']) = map name (players s)"
    using r n cur by (simp add: map_update list_update_same_conv)
  have al: "map alive ((players s)[nat (currentPlayerIndex s) := p']) = map alive (players s)"
    using r n cur by (simp add: map_update list_update_same_conv)
  show "steady s s2" using nm l by (simp add: steady_def e counts_ok_def)
  show "quiet s s2" by (simp add: quiet_def e)
  show "currentPlayerIndex s2 = currentPlayerIndex s" "roundOver s2 = roundOver s"
    "anyQuestionAsked s2 = anyQuestionAsked s" by (simp_all add: e)
  show "map alive (players s2) = map alive (players s)" using al by (simp add: e)
  show "decider_of (emitted s s2) = None" by (simp add: e emitted_def)
qed

text \<open>What the decision part does when the loop goes on.\<close>

lemma decisionPart_Some:
  assumes "decisionPart inp h s2 = Some (fl, s1)"
  shows "(fl = Break \<and> s1 = s2\<lparr>roundOver := True\<rparr>
            \<and> getNextAlivePlayer (players s2) (currentPlayerIndex s2) = Some (- 1))
       \<or> (fl = Fallthrough \<and>
           (\<exists>nxt nextP. getNextAlivePlayer (players s2) (currentPlayerIndex s2) = Some nxt
              \<and> nxt \<noteq> - 1 \<and> at (players s2) nxt = Some nextP
              \<and> ((\<exists>evs. s1 = s2\<lparr>out := out s2 @ evs\<rparr> \<and> \<not> list_ex isForced evs
                        \<and> (h \<and> \<not> sublist ''Bot'' (name nextP) \<or> decider_of evs = Some (name nextP)))
                  \<or> (\<exists>ev. questionPrevious nxt (currentPlayerIndex s2) (rand_bomb inp)
                              (s2\<lparr>out := out s2 @ [ev]\<rparr>) = Some s1
                        \<and> \<not> isForced ev \<and> decider_of [ev] = Some (name nextP)))))"
proof -
  from assms obtain nxt where g: "getNextAlivePlayer (players s2) (currentPlayerIndex s2) = Some nxt"
    and rest: "(if nxt = - 1 then Some (Break, s2\<lparr>roundOver := True\<rparr>)
       else at (players s2) nxt \<bind> (\<lambda>nextP.
         if h then (if sublist ''Bot'' (name nextP) then rollPart inp nxt nextP s2
                    else Some (Fallthrough, s2))
         else (if name nextP = ''Human'' then askPart inp nxt s2
               else rollPart inp nxt nextP s2))) = Some (fl, s1)"
    by (auto simp: decisionPart_def split: Option.bind_splits)
  show ?thesis
  proof (cases "nxt = - 1")
    case True
    with g rest show ?thesis by simp
  next
    case False
    with rest obtain nextP where a: "at (players s2) nxt = Some nextP"
      and d: "(if h then (if sublist ''Bot'' (name nextP) then rollPart inp nxt nextP s2
                    else Some (Fallthrough, s2))
         else (if name nextP = ''Human'' then askPart inp nxt s2
               else rollPart inp nxt nextP s2)) = Some (fl, s1)"
      by (auto split: Option.bind_splits)
    have roll: "fl = Fallthrough \<and>
        ((\<exists>evs. s1 = s2\<lparr>out := out s2 @ evs\<rparr> \<and> \<not> list_ex isForced evs
                \<and> decider_of evs = Some (name nextP))
         \<or> (\<exists>ev. questionPrevious nxt (currentPlayerIndex s2) (rand_bomb inp)
                    (s2\<lparr>out := out s2 @ [ev]\<rparr>) = Some s1
                \<and> \<not> isForced ev \<and> decider_of [ev] = Some (name nextP)))"
      if "rollPart inp nxt nextP s2 = Some (fl, s1)"
    proof (cases "rand_question inp mod 100 < 30")
      case True
      with that have "questionPrevious nxt (currentPlayerIndex s2) (rand_bomb inp)
          (s2\<lparr>out := out s2 @ [DecidesToQuestion (name nextP)]\<rparr>) = Some s1" "fl = Fallthrough"
        by (auto simp: rollPart_def split: Option.bind_splits)
      then show ?thesis by (intro conjI disjI2 exI [of _ "DecidesToQuestion (name nextP)"]) simp_all
    next
      case False
      with that have "s1 = s2\<lparr>out := out s2 @ [DecidesNot (name nextP)]\<rparr>" "fl = Fallthrough"
        by (auto simp: rollPart_def)
      then show ?thesis by (intro conjI disjI1 exI [of _ "[DecidesNot (name nextP)]"]) simp_all
    qed
    have ask: "fl = Fallthrough \<and>
        ((\<exists>evs. s1 = s2\<lparr>out := out s2 @ evs\<rparr> \<and> \<not> list_ex isForced evs
                \<and> decider_of evs = Some ''Human'')
         \<or> (\<exists>ev. questionPrevious nxt (currentPlayerIndex s2) (rand_bomb inp)
                    (s2\<lparr>out := out s2 @ [ev]\<rparr>) = Some s1
                \<and> \<not> isForced ev \<and> decider_of [ev] = Some ''Human''))"
      if "askPart inp nxt s2 = Some (fl, s1)"
    proof (cases "answer inp = CHR ''y'' \<or> answer inp = CHR ''Y''")
      case True
      with that have "questionPrevious nxt (currentPlayerIndex s2) (rand_bomb inp)
          (s2\<lparr>out := out s2 @ [AskHuman]\<rparr>) = Some s1" "fl = Fallthrough"
        by (auto simp: askPart_def split: Option.bind_splits)
      then show ?thesis by (intro conjI disjI2 exI [of _ "AskHuman"]) simp_all
    next
      case False
      with that have "s1 = s2\<lparr>out := out s2 @ [AskHuman, DecidesNot ''Human'']\<rparr>" "fl = Fallthrough"
        by (auto simp: askPart_def)
      then show ?thesis
        by (intro conjI disjI1 exI [of _ "[AskHuman, DecidesNot ''Human'']"]) simp_all
    qed
    have "fl = Fallthrough \<and>
        ((\<exists>evs. s1 = s2\<lparr>out := out s2 @ evs\<rparr> \<and> \<not> list_ex isForced evs
                \<and> (h \<and> \<not> sublist ''Bot'' (name nextP) \<or> decider_of evs = Some (name nextP)))
         \<or> (\<exists>ev. questionPrevious nxt (currentPlayerIndex s2) (rand_bomb inp)
                    (s2\<lparr>out := out s2 @ [ev]\<rparr>) = Some s1
                \<and> \<not> isForced ev \<and> decider_of [ev] = Some (name nextP)))"
    proof (cases h)
      case True
      note h = this
      show ?thesis
      proof (cases "sublist ''Bot'' (name nextP)")
        case True
        with h d roll show ?thesis by auto
      next
        case False
        with h d have "s1 = s2\<lparr>out := out s2 @ []\<rparr>" "fl = Fallthrough" by simp_all
        with h False show ?thesis by (intro conjI disjI1 exI [of _ "[]"]) simp_all
      qed
    next
      case False
      note nh = this
      show ?thesis
      proof (cases "name nextP = ''Human''")
        case True
        with nh d ask show ?thesis by auto
      next
        case False
        with nh d roll show ?thesis by auto
      qed
    qed
    with g False a show ?thesis by blast
  qed
qed

lemma steady_out: "steady s (s\<lparr>out := out s @ evs\<rparr>)"
  by (simp add: steady_def counts_ok_def)

lemma decisionPart_effect:
  assumes "decisionPart inp h s2 = Some (fl, s1)"
  shows "steady s2 s1" and "quiet s2 s1"
    and "(fl = Fallthrough \<and> roundOver s1 \<and> anyQuestionAsked s1)
       \<or> (fl = Fallthrough \<and> players s1 = players s2
            \<and> currentPlayerIndex s1 = currentPlayerIndex s2
            \<and> roundOver s1 = roundOver s2 \<and> anyQuestionAsked s1 = anyQuestionAsked s2
            \<and> lastPlayedByIndex s1 = lastPlayedByIndex s2
            \<and> (\<exists>nxt. getNextAlivePlayer (players s2) (currentPlayerIndex s2) = Some nxt
                  \<and> nxt \<noteq> - 1))
       \<or> (fl = Break \<and> roundOver s1)"
proof -
  from decisionPart_Some [OF assms] consider
    (brk) "fl = Break" "s1 = s2\<lparr>roundOver := True\<rparr>"
  | (declined) nxt evs where "fl = Fallthrough"
      "getNextAlivePlayer (players s2) (currentPlayerIndex s2) = Some nxt" "nxt \<noteq> - 1"
      "s1 = s2\<lparr>out := out s2 @ evs\<rparr>" "\<not> list_ex isForced evs"
  | (asked) nxt ev where "fl = Fallthrough"
      "questionPrevious nxt (currentPlayerIndex s2) (rand_bomb inp)
         (s2\<lparr>out := out s2 @ [ev]\<rparr>) = Some s1" "\<not> isForced ev"
    by blast
  then have "steady s2 s1 \<and> quiet s2 s1
    \<and> ((fl = Fallthrough \<and> roundOver s1 \<and> anyQuestionAsked s1)
       \<or> (fl = Fallthrough \<and> players s1 = players s2
            \<and> currentPlayerIndex s1 = currentPlayerIndex s2
            \<and> roundOver s1 = roundOver s2 \<and> anyQuestionAsked s1 = anyQuestionAsked s2
            \<and> lastPlayedByIndex s1 = lastPlayedByIndex s2
            \<and> (\<exists>nxt. getNextAlivePlayer (players s2) (currentPlayerIndex s2) = Some nxt
                  \<and> nxt \<noteq> - 1))
       \<or> (fl = Break \<and> roundOver s1))"
  proof cases
    case brk
    then show ?thesis by (simp add: steady_def quiet_def counts_ok_def)
  next
    case declined
    then show ?thesis by (simp add: steady_out quiet_def)
  next
    case asked
    note q = questionPrevious_effect [OF asked(2)]
    have "steady s2 (s2\<lparr>out := out s2 @ [ev]\<rparr>)" by (rule steady_out)
    then have st: "steady s2 s1" using q(3) by (rule steady_trans)
    from q(4) obtain evs where "out s1 = out s2 @ ([ev] @ evs)" "\<not> list_ex isForced evs" by auto
    then have "quiet s2 s1" using asked(3) unfolding quiet_def
      by (intro exI [of _ "[ev] @ evs"]) simp
    with st q(1,2) asked(1) show ?thesis by simp
  qed
  then show "steady s2 s1" and "quiet s2 s1"
    and "(fl = Fallthrough \<and> roundOver s1 \<and> anyQuestionAsked s1)
       \<or> (fl = Fallthrough \<and> players s1 = players s2
            \<and> currentPlayerIndex s1 = currentPlayerIndex s2
            \<and> roundOver s1 = roundOver s2 \<and> anyQuestionAsked s1 = anyQuestionAsked s2
            \<and> lastPlayedByIndex s1 = lastPlayedByIndex s2
            \<and> (\<exists>nxt. getNextAlivePlayer (players s2) (currentPlayerIndex s2) = Some nxt
                  \<and> nxt \<noteq> - 1))
       \<or> (fl = Break \<and> roundOver s1)"
    by blast+
qed

lemma turn_Fallthrough:
  assumes "turn inp s = Some (Fallthrough, s1)"
  shows "\<exists>cur s2. 1 < countAliveWithCards (players s)
           \<and> at (players s) (currentPlayerIndex s) = Some cur \<and> alive cur \<and> hand cur \<noteq> []
           \<and> playPart inp s = Some s2
           \<and> decisionPart inp (name cur = ''Human'') s2 = Some (Fallthrough, s1)"
  using assms
  by (auto simp: turn_parts split: if_splits option.splits Option.bind_splits)

lemma turn_effect:
  assumes "turn inp s = Some (fl, s1)"
  shows "steady s s1" and "quiet s s1"
proof -
  have "steady s s1 \<and> quiet s s1"
  proof (cases "countAliveWithCards (players s) \<le> 1")
    case True
    with assms have "s1 = s" by (simp add: turn_parts)
    then show ?thesis by (simp add: steady_refl quiet_refl)
  next
    case False
    note many = this
    with assms obtain cur where c: "at (players s) (currentPlayerIndex s) = Some cur"
      by (auto simp: turn_parts split: option.splits)
    show ?thesis
    proof (cases "\<not> alive cur \<or> hand cur = []")
      case True
      with assms many c have "\<exists>c r. s1 = s\<lparr>roundOver := r\<rparr> \<or> s1 = s\<lparr>currentPlayerIndex := c\<rparr>"
        by (auto simp: turn_parts split: option.splits if_splits)
      then show ?thesis by (auto simp: steady_def quiet_def counts_ok_def)
    next
      case False
      with assms many c obtain s2 where p: "playPart inp s = Some s2"
        and d: "decisionPart inp (name cur = ''Human'') s2 = Some (fl, s1)"
        by (auto simp: turn_parts split: Option.bind_splits)
      from playPart_effect(1) [OF p] decisionPart_effect(1) [OF d]
      have "steady s s1" by (rule steady_trans)
      moreover from playPart_effect(2) [OF p] decisionPart_effect(2) [OF d]
      have "quiet s s1" by (rule quiet_trans)
      ultimately show ?thesis by simp
    qed
  qed
  then show "steady s s1" and "quiet s s1" by simp_all
qed

text \<open>After a turn that did not leave the loop: a question was asked, or nothing but the play happened.\<close>

lemma turn_Fallthrough_effect:
  assumes "turn inp s = Some (Fallthrough, s1)"
  shows "(roundOver s1 \<and> anyQuestionAsked s1)
       \<or> (currentPlayerIndex s1 = currentPlayerIndex s
            \<and> roundOver s1 = roundOver s \<and> anyQuestionAsked s1 = anyQuestionAsked s
            \<and> map alive (players s1) = map alive (players s)
            \<and> (\<exists>nxt. getNextAlivePlayer (players s1) (currentPlayerIndex s1) = Some nxt
                  \<and> nxt \<noteq> - 1))"
proof -
  from turn_Fallthrough [OF assms] obtain cur :: player and s2 where
    p: "playPart inp s = Some s2"
    and d: "decisionPart inp (name cur = ''Human'') s2 = Some (Fallthrough, s1)" by auto
  note pe = playPart_effect [OF p]
  from decisionPart_effect(3) [OF d] show ?thesis
    using pe(3,4,5,6) by auto
qed

subsection \<open>Forced questioning\<close>

lemma forcedQuestioning_idle:
  assumes "forcedQuestioning inp s = Some (fl, s')" "\<not> forcedCondition s"
  shows "(fl = Fallthrough \<and> s' = s) \<or> (fl = Break \<and> s' = s\<lparr>roundOver := True\<rparr>)"
  using assms
  by (auto simp: forcedQuestioning_def forcedCondition_def Let_def
      split: if_splits Option.bind_splits)

lemma forcedQuestioning_fires:
  assumes "forcedQuestioning inp s = Some (fl, s')" "forcedCondition s"
  shows "\<exists>nxt questioner played s''.
           getNextAlivePlayer (players s) (currentPlayerIndex s) = Some nxt \<and> nxt \<noteq> - 1
           \<and> at (players s) nxt = Some questioner
           \<and> (let prevIdx = findPlayerIndex (players s)
                               (name (players s ! nat (currentPlayerIndex s))) in
                if prevIdx \<noteq> - 1 then at (lastPlayedByIndex s) prevIdx else Some []) = Some played
           \<and> handleQuestioning (nat nxt) (nat (currentPlayerIndex s)) played (focus s)
                 (rand_forced_bomb inp)
                 (s\<lparr>out := out s @ [ForcedToQuestion (name questioner)]\<rparr>) = Some (True, s'')
           \<and> s' = s''\<lparr>roundOver := True, anyQuestionAsked := True\<rparr> \<and> fl = Fallthrough"
proof -
  from assms(2) obtain nxt previous where
    c: "\<not> roundOver s" "\<not> anyQuestionAsked s" "countAlivePlayers (players s) = 2"
      "getNextAlivePlayer (players s) (currentPlayerIndex s) = Some nxt" "nxt \<noteq> - 1"
      "at (players s) (currentPlayerIndex s) = Some previous" "hand previous = []"
    by (auto simp: forcedCondition_def split: option.splits)
  from c(6) have prev: "previous = players s ! nat (currentPlayerIndex s)"
    by (auto simp: at_def split: if_splits)
  from assms(1) c obtain questioner played b s'' where
    q: "at (players s) nxt = Some questioner"
    and pl: "(let prevIdx = findPlayerIndex (players s) (name previous) in
                if prevIdx \<noteq> - 1 then at (lastPlayedByIndex s) prevIdx else Some []) = Some played"
    and h: "handleQuestioning (nat nxt) (nat (currentPlayerIndex s)) played (focus s)
                 (rand_forced_bomb inp)
                 (s\<lparr>out := out s @ [ForcedToQuestion (name questioner)]\<rparr>) = Some (b, s'')"
    and e: "s' = s''\<lparr>roundOver := b, anyQuestionAsked := True\<rparr>" "fl = Fallthrough"
    by (auto simp: forcedQuestioning_def split: Option.bind_splits)
  from handleQuestioning_players(8) [OF h] have b: "b = True" .
  show ?thesis
    by (rule exI [of _ nxt], rule exI [of _ questioner], rule exI [of _ played],
        rule exI [of _ s''])
      (use c q pl h e b prev in simp)
qed

lemma forcedQuestioning_fired_iff:
  assumes "forcedQuestioning inp s = Some (fl, s')"
  shows "forcedFired s s' \<longleftrightarrow> forcedCondition s"
proof (cases "forcedCondition s")
  case False
  from forcedQuestioning_idle [OF assms False] have "out s' = out s" by auto
  with False show ?thesis by (simp add: forcedFired_def emitted_def)
next
  case True
  from forcedQuestioning_fires [OF assms True] obtain nxt and questioner :: player and played s'' where
    h: "handleQuestioning (nat nxt) (nat (currentPlayerIndex s)) played (focus s)
                 (rand_forced_bomb inp)
                 (s\<lparr>out := out s @ [ForcedToQuestion (name questioner)]\<rparr>) = Some (True, s'')"
    and e: "s' = s''\<lparr>roundOver := True, anyQuestionAsked := True\<rparr>" by blast
  from handleQuestioning_out [OF h] obtain evs where
    "out s'' = (out s @ [ForcedToQuestion (name questioner)]) @ evs" by auto
  with e have "emitted s s' = ForcedToQuestion (name questioner) # evs"
    by (simp add: emitted_def)
  with True show ?thesis by (simp add: forcedFired_def)
qed

lemma forcedQuestioning_steady:
  assumes "forcedQuestioning inp s = Some (fl, s')"
  shows "steady s s'"
proof (cases "forcedCondition s")
  case False
  from forcedQuestioning_idle [OF assms False] show ?thesis
    by (auto simp: steady_def counts_ok_def)
next
  case True
  from forcedQuestioning_fires [OF assms True] obtain nxt and questioner :: player and played s'' where
    h: "handleQuestioning (nat nxt) (nat (currentPlayerIndex s)) played (focus s)
                 (rand_forced_bomb inp)
                 (s\<lparr>out := out s @ [ForcedToQuestion (name questioner)]\<rparr>) = Some (True, s'')"
    and e: "s' = s''\<lparr>roundOver := True, anyQuestionAsked := True\<rparr>" by blast
  have "steady s (s\<lparr>out := out s @ [ForcedToQuestion (name questioner)]\<rparr>)" by (rule steady_out)
  then have "steady s s''" using handleQuestioning_steady [OF h] by (rule steady_trans)
  moreover have "steady s'' s'" by (simp add: e steady_def counts_ok_def)
  ultimately show ?thesis by (rule steady_trans)
qed

lemma advance_effect:
  assumes "advance s = Some (fl, s')"
  shows "steady s s'" and "out s' = out s"
  using assms
  by (auto simp: advance_def steady_def counts_ok_def split: if_splits Option.bind_splits)

lemma forcedCondition_after_turn:
  assumes "turn inp s = Some (Fallthrough, s1)" "\<not> roundOver s"
  shows "forcedCondition s1 \<longleftrightarrow>
           \<not> anyQuestionAsked s1 \<and> countAlivePlayers (players s1) = 2
           \<and> hand (players s1 ! nat (currentPlayerIndex s)) = []"
proof -
  from turn_Fallthrough [OF assms(1)] obtain cur :: player where
    c: "at (players s) (currentPlayerIndex s) = Some cur" by auto
  then have r: "0 \<le> currentPlayerIndex s" "currentPlayerIndex s < int (length (players s))"
    by (auto simp: at_def split: if_splits)
  from turn_effect(1) [OF assms(1)] have "map name (players s1) = map name (players s)"
    by (simp add: steady_def)
  then have "length (players s1) = length (players s)" by (rule map_eq_imp_length_eq)
  with r have a: "at (players s1) (currentPlayerIndex s)
      = Some (players s1 ! nat (currentPlayerIndex s))"
    by (simp add: at_def)
  from turn_Fallthrough_effect [OF assms(1)] show ?thesis
  proof
    assume "roundOver s1 \<and> anyQuestionAsked s1"
    then show ?thesis by (simp add: forcedCondition_def)
  next
    assume b: "currentPlayerIndex s1 = currentPlayerIndex s
            \<and> roundOver s1 = roundOver s \<and> anyQuestionAsked s1 = anyQuestionAsked s
            \<and> map alive (players s1) = map alive (players s)
            \<and> (\<exists>nxt. getNextAlivePlayer (players s1) (currentPlayerIndex s1) = Some nxt
                  \<and> nxt \<noteq> - 1)"
    then obtain nxt where "getNextAlivePlayer (players s1) (currentPlayerIndex s) = Some nxt"
      "nxt \<noteq> - 1" by auto
    with b a assms(2) show ?thesis by (simp add: forcedCondition_def)
  qed
qed

lemma forcedQuestioning_after_turn:
  assumes "turn inp s = Some (Fallthrough, s1)" "\<not> forcedCondition s1"
  shows "forcedQuestioning inp s1 = Some (Fallthrough, s1)"
proof -
  from turn_Fallthrough_effect [OF assms(1)] show ?thesis
  proof
    assume "roundOver s1 \<and> anyQuestionAsked s1"
    then show ?thesis by (simp add: forcedQuestioning_def)
  next
    assume b: "currentPlayerIndex s1 = currentPlayerIndex s
            \<and> roundOver s1 = roundOver s \<and> anyQuestionAsked s1 = anyQuestionAsked s
            \<and> map alive (players s1) = map alive (players s)
            \<and> (\<exists>nxt. getNextAlivePlayer (players s1) (currentPlayerIndex s1) = Some nxt
                  \<and> nxt \<noteq> - 1)"
    then obtain nxt where g: "getNextAlivePlayer (players s1) (currentPlayerIndex s1) = Some nxt"
      "nxt \<noteq> - 1" by auto
    from getNextAlivePlayer_sound [OF g] have "at (players s1) nxt \<noteq> None"
      by (simp add: at_def)
    then obtain q where q: "at (players s1) nxt = Some q" by auto
    from turn_Fallthrough [OF assms(1)] obtain cur :: player where
      "at (players s) (currentPlayerIndex s) = Some cur" by auto
    then have "0 \<le> currentPlayerIndex s" "currentPlayerIndex s < int (length (players s))"
      by (auto simp: at_def split: if_splits)
    moreover from turn_effect(1) [OF assms(1)] have "length (players s1) = length (players s)"
      by (auto simp: steady_def dest: map_eq_imp_length_eq)
    ultimately have c: "at (players s1) (currentPlayerIndex s1)
        = Some (players s1 ! nat (currentPlayerIndex s1))"
      using b by (simp add: at_def)
    show ?thesis using assms(2) g q c
      by (auto simp: forcedQuestioning_def forcedCondition_def Let_def)
  qed
qed

text \<open>
  C3. In a pass through the loop body (entered with \<open>roundOver\<close> false), forced
  questioning fires exactly when the pass held a turn after which the loop went on,
  \<open>anyQuestionAsked\<close> is still false after that turn (no question yet this round), exactly
  two players are alive, and the hand of the player who has just played (the player at
  the \<open>currentPlayerIndex\<close> of the start of the pass) is empty. \<open>s1\<close> is the state after
  the turn.

  When it fires, the next alive player with cards is reported as forced to question and
  \<open>handleQuestioning\<close> resolves the question against the last recorded play of the
  player who has just played; the pass ends there, with \<open>roundOver\<close> and
  \<open>anyQuestionAsked\<close> set. When it does not fire, no question is forced: the pass is
  the turn alone when the turn left the loop body, and the turn followed by the advance
  to the next player otherwise.
\<close>

theorem forced_fires_iff:
  assumes "\<not> roundOver s" and "body inp s = Some (fl, s')"
  shows "(forcedFired s s' \<longleftrightarrow>
           (\<exists>s1. turn inp s = Some (Fallthrough, s1)
              \<and> \<not> anyQuestionAsked s1
              \<and> countAlivePlayers (players s1) = 2
              \<and> hand (players s1 ! nat (currentPlayerIndex s)) = []))
       \<and> (forcedFired s s' \<longrightarrow>
           (\<exists>s1 nxt questioner played s''.
              turn inp s = Some (Fallthrough, s1)
              \<and> getNextAlivePlayer (players s1) (currentPlayerIndex s) = Some nxt \<and> nxt \<noteq> - 1
              \<and> at (players s1) nxt = Some questioner
              \<and> (let prevIdx = findPlayerIndex (players s1)
                                  (name (players s1 ! nat (currentPlayerIndex s))) in
                   if prevIdx \<noteq> - 1 then at (lastPlayedByIndex s1) prevIdx else Some [])
                  = Some played
              \<and> handleQuestioning (nat nxt) (nat (currentPlayerIndex s)) played (focus s1)
                    (rand_forced_bomb inp)
                    (s1\<lparr>out := out s1 @ [ForcedToQuestion (name questioner)]\<rparr>) = Some (True, s'')
              \<and> s' = s''\<lparr>roundOver := True, anyQuestionAsked := True\<rparr> \<and> fl = Fallthrough))
       \<and> (\<not> forcedFired s s' \<longrightarrow>
           (\<exists>f1 s1. turn inp s = Some (f1, s1)
              \<and> (if f1 = Fallthrough then advance s1 = Some (fl, s') else (fl, s') = (f1, s1))))"
proof -
  from assms(2) obtain f1 s1 where t: "turn inp s = Some (f1, s1)"
    and rest: "(if f1 \<noteq> Fallthrough then Some (f1, s1)
                else forcedQuestioning inp s1 \<bind> (\<lambda>(f2, s2).
                  if f2 \<noteq> Fallthrough then Some (f2, s2) else advance s2)) = Some (fl, s')"
    by (auto simp: body_def split: Option.bind_splits)
  show ?thesis
  proof (cases "f1 = Fallthrough")
    case False
    with rest have e: "s' = s1" "fl = f1" by simp_all
    with turn_effect(2) [OF t] have "\<not> forcedFired s s'" by (simp add: quiet_not_fired)
    with t False e show ?thesis by simp
  next
    case True
    note t' = t [unfolded True]
    from rest True obtain f2 s2 where fq: "forcedQuestioning inp s1 = Some (f2, s2)"
      and adv: "(if f2 \<noteq> Fallthrough then Some (f2, s2) else advance s2) = Some (fl, s')"
      by (auto split: Option.bind_splits)
    have o2: "out s' = out s2"
      using adv advance_effect(2) [of s2 fl s'] by (auto split: if_splits)
    from turn_effect(2) [OF t] obtain evs1 where
      e1: "out s1 = out s @ evs1" "\<not> list_ex isForced evs1" by (auto simp: quiet_def)
    from forcedQuestioning_steady [OF fq] obtain evs2 where
      e2: "out s2 = out s1 @ evs2" by (auto simp: steady_def)
    have "forcedFired s s' \<longleftrightarrow> list_ex isForced evs2"
      using e1 by (simp add: forcedFired_def emitted_def o2 e2)
    also have "\<dots> \<longleftrightarrow> forcedFired s1 s2"
      by (simp add: forcedFired_def emitted_def e2)
    also have "\<dots> \<longleftrightarrow> forcedCondition s1"
      by (rule forcedQuestioning_fired_iff [OF fq])
    finally have fired: "forcedFired s s' \<longleftrightarrow> forcedCondition s1" .
    have cond: "forcedCondition s1 \<longleftrightarrow> \<not> anyQuestionAsked s1 \<and> countAlivePlayers (players s1) = 2
           \<and> hand (players s1 ! nat (currentPlayerIndex s)) = []"
      by (rule forcedCondition_after_turn [OF t' assms(1)])
    show ?thesis
    proof (cases "forcedCondition s1")
      case False
      from forcedQuestioning_after_turn [OF t' False] fq have "f2 = Fallthrough" "s2 = s1"
        by simp_all
      with adv have a: "advance s1 = Some (fl, s')" by simp
      from False fired have nf: "\<not> forcedFired s s'" by simp
      from False cond t' have "\<not> (\<exists>s1. turn inp s = Some (Fallthrough, s1)
              \<and> \<not> anyQuestionAsked s1
              \<and> countAlivePlayers (players s1) = 2
              \<and> hand (players s1 ! nat (currentPlayerIndex s)) = [])" by simp
      moreover from t' a have "\<exists>f1 s1. turn inp s = Some (f1, s1)
              \<and> (if f1 = Fallthrough then advance s1 = Some (fl, s') else (fl, s') = (f1, s1))"
        by simp
      ultimately show ?thesis using nf by blast
    next
      case fc: True
      then have nq: "\<not> anyQuestionAsked s1" by (simp add: forcedCondition_def)
      with turn_Fallthrough_effect [OF t'] have ci: "currentPlayerIndex s1 = currentPlayerIndex s"
        by auto
      from forcedQuestioning_fires [OF fq fc]
      obtain nxt and questioner :: player and played s'' where
        g: "getNextAlivePlayer (players s1) (currentPlayerIndex s1) = Some nxt" "nxt \<noteq> - 1"
        and q: "at (players s1) nxt = Some questioner"
        and pl: "(let prevIdx = findPlayerIndex (players s1)
                               (name (players s1 ! nat (currentPlayerIndex s1))) in
                if prevIdx \<noteq> - 1 then at (lastPlayedByIndex s1) prevIdx else Some []) = Some played"
        and h: "handleQuestioning (nat nxt) (nat (currentPlayerIndex s1)) played (focus s1)
                 (rand_forced_bomb inp)
                 (s1\<lparr>out := out s1 @ [ForcedToQuestion (name questioner)]\<rparr>) = Some (True, s'')"
        and e: "s2 = s''\<lparr>roundOver := True, anyQuestionAsked := True\<rparr>" "f2 = Fallthrough"
        by blast
      from adv e have r: "s' = s''\<lparr>roundOver := True, anyQuestionAsked := True\<rparr>" "fl = Fallthrough"
        by (simp_all add: advance_def)
      have "\<exists>s1 nxt questioner played s''.
              turn inp s = Some (Fallthrough, s1)
              \<and> getNextAlivePlayer (players s1) (currentPlayerIndex s) = Some nxt \<and> nxt \<noteq> - 1
              \<and> at (players s1) nxt = Some questioner
              \<and> (let prevIdx = findPlayerIndex (players s1)
                                  (name (players s1 ! nat (currentPlayerIndex s))) in
                   if prevIdx \<noteq> - 1 then at (lastPlayedByIndex s1) prevIdx else Some [])
                  = Some played
              \<and> handleQuestioning (nat nxt) (nat (currentPlayerIndex s)) played (focus s1)
                    (rand_forced_bomb inp)
                    (s1\<lparr>out := out s1 @ [ForcedToQuestion (name questioner)]\<rparr>) = Some (True, s'')
              \<and> s' = s''\<lparr>roundOver := True, anyQuestionAsked := True\<rparr> \<and> fl = Fallthrough"
        by (rule exI [of _ s1], rule exI [of _ nxt], rule exI [of _ questioner],
            rule exI [of _ played], rule exI [of _ s''])
          (use t' g q pl h r ci in simp)
      moreover from fc fired have "forcedFired s s'" by simp
      moreover from fc cond t' have "\<exists>s1. turn inp s = Some (Fallthrough, s1)
              \<and> \<not> anyQuestionAsked s1
              \<and> countAlivePlayers (players s1) = 2
              \<and> hand (players s1 ! nat (currentPlayerIndex s)) = []" by simp
      ultimately show ?thesis by blast
    qed
  qed
qed

theorem forced_fires_iff_witness:
  "\<not> roundOver ex_state
   \<and> (\<exists>fl s'. body ex_inputs ex_state = Some (fl, s') \<and> forcedFired ex_state s'
         \<and> (\<exists>s1. turn ex_inputs ex_state = Some (Fallthrough, s1)
                \<and> \<not> anyQuestionAsked s1
                \<and> countAlivePlayers (players s1) = 2
                \<and> hand (players s1 ! nat (currentPlayerIndex ex_state)) = [])
         \<and> (\<exists>s1 nxt questioner played s''.
                turn ex_inputs ex_state = Some (Fallthrough, s1)
                \<and> getNextAlivePlayer (players s1) (currentPlayerIndex ex_state) = Some nxt
                \<and> at (players s1) nxt = Some questioner
                \<and> handleQuestioning (nat nxt) (nat (currentPlayerIndex ex_state)) played (focus s1)
                      (rand_forced_bomb ex_inputs)
                      (s1\<lparr>out := out s1 @ [ForcedToQuestion (name questioner)]\<rparr>)
                    = Some (True, s'')
                \<and> s' = s''\<lparr>roundOver := True, anyQuestionAsked := True\<rparr>))
   \<and> \<not> roundOver ex_round
   \<and> (\<exists>fl s' s1. body ex_inputs ex_round = Some (fl, s') \<and> \<not> forcedFired ex_round s'
         \<and> turn ex_inputs ex_round = Some (Fallthrough, s1) \<and> advance s1 = Some (fl, s'))"
proof -
  have nr: "\<not> roundOver ex_state" by code_simp
  have "body ex_inputs ex_state \<noteq> None" by code_simp
  then obtain fl s' where b: "body ex_inputs ex_state = Some (fl, s')" by auto
  have "forcedFired ex_state (snd (the (body ex_inputs ex_state)))" by code_simp
  with b have f: "forcedFired ex_state s'" by simp
  note fires = forced_fires_iff [OF nr b]
  from fires f
  have c: "\<exists>s1. turn ex_inputs ex_state = Some (Fallthrough, s1)
          \<and> \<not> anyQuestionAsked s1
          \<and> countAlivePlayers (players s1) = 2
          \<and> hand (players s1 ! nat (currentPlayerIndex ex_state)) = []" by simp
  from fires f
  have r: "\<exists>s1 nxt questioner played s''.
                turn ex_inputs ex_state = Some (Fallthrough, s1)
                \<and> getNextAlivePlayer (players s1) (currentPlayerIndex ex_state) = Some nxt
                \<and> at (players s1) nxt = Some questioner
                \<and> handleQuestioning (nat nxt) (nat (currentPlayerIndex ex_state)) played (focus s1)
                      (rand_forced_bomb ex_inputs)
                      (s1\<lparr>out := out s1 @ [ForcedToQuestion (name questioner)]\<rparr>)
                    = Some (True, s'')
                \<and> s' = s''\<lparr>roundOver := True, anyQuestionAsked := True\<rparr>" by blast
  have nr2: "\<not> roundOver ex_round" by code_simp
  have "body ex_inputs ex_round \<noteq> None" by code_simp
  then obtain fl2 s2 where b2: "body ex_inputs ex_round = Some (fl2, s2)" by auto
  have "\<not> forcedFired ex_round (snd (the (body ex_inputs ex_round)))" by code_simp
  with b2 have nf: "\<not> forcedFired ex_round s2" by simp
  have "fst (the (turn ex_inputs ex_round)) = Fallthrough" by code_simp
  with forced_fires_iff [OF nr2 b2] nf
  have i: "\<exists>s1. turn ex_inputs ex_round = Some (Fallthrough, s1) \<and> advance s1 = Some (fl2, s2)"
    by auto
  from nr b f c r nr2 b2 nf i show ?thesis by blast
qed

lemma bomb_out_irrelevant:
  "players (bomb sj r (s\<lparr>out := o'\<rparr>)) = players (bomb sj r s)"
  "surviveCount (bomb sj r (s\<lparr>out := o'\<rparr>)) = surviveCount (bomb sj r s)"
  by (simp_all add: bomb_def Let_def)

text \<open>
  The play that forced questioning reveals can be correct: Bot1 plays its last card, a
  Sun, under the focus card Sun; Bot2 does not question and is then forced to; the play
  is correct and the bomb goes to Bot2, the questioner.
\<close>

theorem forced_play_correct_counterexample:
  "body ex_inputs ex_state \<noteq> None
   \<and> forcedFired ex_state (snd (the (body ex_inputs ex_state)))
   \<and> hand (players (snd (the (body ex_inputs ex_state))) ! 1) = []
   \<and> lastPlayedByIndex (snd (the (body ex_inputs ex_state))) ! 1 = [''Sun'']
   \<and> playIsCorrect (lastPlayedByIndex (snd (the (body ex_inputs ex_state))) ! 1)
         (focus (snd (the (body ex_inputs ex_state))))
   \<and> emitted ex_state (snd (the (body ex_inputs ex_state))) =
         [HiddenPlay ''Bot1'' 1, DecidesNot ''Bot2'', ForcedToQuestion ''Bot2'',
          Reveal ''Bot1'' [''Sun''], WrongToQuestion ''Bot2'', Survived ''Bot2'']
   \<and> count_of (surviveCount (snd (the (body ex_inputs ex_state)))) ''Bot2''
       = count_of (surviveCount ex_state) ''Bot2'' + 1"
  by code_simp

text \<open>
  C6 (amended). When forced questioning fires, the last recorded play of the challenged
  player (the player at \<open>currentPlayerIndex\<close>, whose hand is empty) is judged by
  \<open>playIsCorrect\<close> like any other play: the bomb is applied to the challenged player when
  the play is incorrect and to the forced questioner (the player \<open>getNextAlivePlayer\<close>
  finds) when it is correct. (The names of the players are distinct.)
\<close>

theorem forced_question_fault:
  assumes "distinct (map name (players s))"
    and "forcedQuestioning inp s = Some (fl, s')" and "forcedFired s s'"
  shows "\<exists>nxt. getNextAlivePlayer (players s) (currentPlayerIndex s) = Some nxt
           \<and> 0 \<le> nxt \<and> nxt < int (length (players s))
           \<and> 0 \<le> currentPlayerIndex s \<and> currentPlayerIndex s < int (length (players s))
           \<and> hand (players s ! nat (currentPlayerIndex s)) = []
           \<and> players s' =
               players (bomb (if playIsCorrect (lastPlayedByIndex s ! nat (currentPlayerIndex s)) (focus s)
                              then nat nxt else nat (currentPlayerIndex s))
                          (rand_forced_bomb inp) s)
           \<and> surviveCount s' =
               surviveCount (bomb (if playIsCorrect (lastPlayedByIndex s ! nat (currentPlayerIndex s)) (focus s)
                                   then nat nxt else nat (currentPlayerIndex s))
                               (rand_forced_bomb inp) s)"
proof -
  from assms(2,3) have fc: "forcedCondition s" by (simp add: forcedQuestioning_fired_iff)
  from forcedQuestioning_fires [OF assms(2) fc]
  obtain nxt and questioner :: player and played s'' where
    g: "getNextAlivePlayer (players s) (currentPlayerIndex s) = Some nxt" "nxt \<noteq> - 1"
    and pl: "(let prevIdx = findPlayerIndex (players s)
                               (name (players s ! nat (currentPlayerIndex s))) in
                if prevIdx \<noteq> - 1 then at (lastPlayedByIndex s) prevIdx else Some []) = Some played"
    and h: "handleQuestioning (nat nxt) (nat (currentPlayerIndex s)) played (focus s)
                 (rand_forced_bomb inp)
                 (s\<lparr>out := out s @ [ForcedToQuestion (name questioner)]\<rparr>) = Some (True, s'')"
    and e: "s' = s''\<lparr>roundOver := True, anyQuestionAsked := True\<rparr>"
    by blast
  from fc obtain previous where
    a: "at (players s) (currentPlayerIndex s) = Some previous" "hand previous = []"
    by (auto simp: forcedCondition_def split: option.splits)
  then have r: "0 \<le> currentPlayerIndex s" "currentPlayerIndex s < int (length (players s))"
    and empty: "hand (players s ! nat (currentPlayerIndex s)) = []"
    by (auto simp: at_def split: if_splits)
  then have "nat (currentPlayerIndex s) < length (players s)" by linarith
  from findPlayerIndex_distinct [OF assms(1) this] r(1)
  have "findPlayerIndex (players s) (name (players s ! nat (currentPlayerIndex s)))
      = currentPlayerIndex s" by simp
  with pl r(1) have "at (lastPlayedByIndex s) (currentPlayerIndex s) = Some played"
    by (simp add: Let_def split: if_splits)
  then have played: "played = lastPlayedByIndex s ! nat (currentPlayerIndex s)"
    by (auto simp: at_def split: if_splits)
  note hp = handleQuestioning_players [OF h, unfolded atFault_def bomb_out_irrelevant]
  from getNextAlivePlayer_sound [OF g] have nr: "0 \<le> nxt" "nxt < int (length (players s))"
    by simp_all
  show ?thesis
    by (rule exI [of _ nxt]) (simp add: g nr r empty e hp(1,2) played)
qed

theorem forced_question_fault_witness:
  "distinct (map name (players ex_forced))
   \<and> (\<exists>fl s'. forcedQuestioning ex_inputs ex_forced = Some (fl, s') \<and> forcedFired ex_forced s'
         \<and> players s' = players (bomb 2 1 ex_forced)
         \<and> surviveCount s' = surviveCount (bomb 2 1 ex_forced))"
proof -
  have d: "distinct (map name (players ex_forced))" by code_simp
  have "forcedQuestioning ex_inputs ex_forced \<noteq> None" by code_simp
  then obtain fl s' where b: "forcedQuestioning ex_inputs ex_forced = Some (fl, s')" by auto
  have "forcedFired ex_forced (snd (the (forcedQuestioning ex_inputs ex_forced)))" by code_simp
  with b have f: "forcedFired ex_forced s'" by simp
  have g: "getNextAlivePlayer (players ex_forced) (currentPlayerIndex ex_forced) = Some 2"
    by code_simp
  have c: "playIsCorrect (lastPlayedByIndex ex_forced ! nat (currentPlayerIndex ex_forced))
      (focus ex_forced)" by code_simp
  have r: "rand_forced_bomb ex_inputs = 1" by code_simp
  from forced_question_fault [OF d b f] g c r
  have "players s' = players (bomb 2 1 ex_forced)
      \<and> surviveCount s' = surviveCount (bomb 2 1 ex_forced)" by auto
  with d b f show ?thesis by blast
qed

subsection \<open>Who decides about a question\<close>

lemma seatsAfter_nth:
  assumes "k < n"
  shows "seatsAfter n start ! k = nat ((start + int (Suc k)) mod int n)"
    and "length (seatsAfter n start) = n"
  using assms by (simp_all add: seatsAfter_def del: upt_Suc)

lemma seatsAfter_self:
  assumes "k < n" "c < n"
  shows "seatsAfter n (int c) ! k = c \<longleftrightarrow> k = n - 1"
proof -
  have n: "0 < int n" using assms by simp
  have "seatsAfter n (int c) ! k = c \<longleftrightarrow> (int c + int (Suc k)) mod int n = int c"
    using assms n by (simp add: seatsAfter_nth nat_eq_iff)
  also have "\<dots> \<longleftrightarrow> (int c + int (Suc k)) mod int n = int c mod int n"
    using assms by simp
  also have "\<dots> \<longleftrightarrow> int (Suc k) mod int n = 0"
    by (metis add.commute add_cancel_right_right mod_add_left_eq mod_add_self2 mod_mod_trivial
        add_diff_cancel_left' mod_eq_dvd_iff dvd_eq_mod_eq_0 add_diff_cancel_right')
  also have "\<dots> \<longleftrightarrow> Suc k = n"
  proof
    assume "int (Suc k) mod int n = 0"
    then have "Suc k mod n = 0" by (metis of_nat_0_eq_iff of_nat_mod)
    then have "n dvd Suc k" by (simp add: dvd_eq_mod_eq_0)
    then have "n \<le> Suc k" by (rule dvd_imp_le) simp
    with assms show "Suc k = n" by simp
  next
    assume "Suc k = n"
    then show "int (Suc k) mod int n = 0" by simp
  qed
  also have "\<dots> \<longleftrightarrow> k = n - 1" using assms by auto
  finally show ?thesis .
qed

lemma length_seatsAfter: "length (seatsAfter n start) = n"
  by (simp add: seatsAfter_def del: upt_Suc)

lemma firstAfter_agree:
  assumes len: "length ps' = length ps" and c: "c < length ps"
    and agree: "\<And>j. j < length ps \<Longrightarrow> j \<noteq> c \<Longrightarrow> P (ps' ! j) = P (ps ! j)"
    and first: "firstAfter P ps' (int c) = Some j" and other: "j \<noteq> c"
  shows "firstAfter P ps (int c) = Some j"
proof -
  let ?n = "length ps"
  let ?seats = "seatsAfter ?n (int c)"
  from first len obtain i where i: "i < length ?seats" "P (ps' ! (?seats ! i))" "j = ?seats ! i"
    "\<forall>k<i. \<not> P (ps' ! (?seats ! k))"
    by (auto simp: firstAfter_def find_Some_iff)
  have ln: "length ?seats = ?n" by (rule length_seatsAfter)
  have inr: "?seats ! k < ?n" if "k < ?n" for k
    using that ln by (intro seatsAfter_in_range [of _ _ "int c"]) simp
  have ilast: "i \<noteq> ?n - 1"
    using seatsAfter_self [of i ?n c] i(1,3) ln c other by auto
  have "P (ps ! (?seats ! i))"
    using agree [of "?seats ! i"] inr [of i] i ln other by simp
  moreover have "\<not> P (ps ! (?seats ! k))" if "k < i" for k
  proof -
    from that i(1) ln have kn: "k < ?n" by simp
    from that i(1) ln have "k \<noteq> ?n - 1" by linarith
    with seatsAfter_self [of k ?n c] kn c have "?seats ! k \<noteq> c" by simp
    with agree [of "?seats ! k"] inr [OF kn] i(4) that show ?thesis by simp
  qed
  ultimately show ?thesis
    using i(1,3) by (auto simp: firstAfter_def find_Some_iff)
qed

lemma firstAfter_other:
  assumes c: "c < length ps" and j: "j < length ps" "j \<noteq> c" "P (ps ! j)"
  shows "\<exists>j'. firstAfter P ps (int c) = Some j' \<and> j' \<noteq> c"
proof -
  let ?n = "length ps"
  let ?seats = "seatsAfter ?n (int c)"
  have ln: "length ?seats = ?n" by (rule length_seatsAfter)
  from firstAfter_exists [of j ps P "int c"] j(1,3) obtain j' where
    f: "firstAfter P ps (int c) = Some j'" by blast
  have "j' \<noteq> c"
  proof
    assume "j' = c"
    with f obtain i where i: "i < ?n" "?seats ! i = c" "\<forall>k<i. \<not> P (ps ! (?seats ! k))"
      using ln by (auto simp: firstAfter_def find_Some_iff)
    with seatsAfter_self [of i ?n c] c have il: "i = ?n - 1" by simp
    from seatsAfter_all [OF j(1), of "int c"] obtain m where m: "m < ?n" "?seats ! m = j"
      using ln by (auto simp: in_set_conv_nth)
    with seatsAfter_self [of m ?n c] c j(2) have "m \<noteq> ?n - 1" by auto
    with m(1) il have "m < i" by linarith
    with i(3) m(2) j(3) show False by auto
  qed
  with f show ?thesis by blast
qed

lemma two_with_cards:
  assumes "1 < countAliveWithCards ps"
  shows "\<exists>j < length ps. j \<noteq> c \<and> alive (ps ! j) \<and> hand (ps ! j) \<noteq> []"
proof (rule ccontr)
  assume "\<not> (\<exists>j < length ps. j \<noteq> c \<and> alive (ps ! j) \<and> hand (ps ! j) \<noteq> [])"
  then have "{i. i < length ps \<and> alive (ps ! i) \<and> hand (ps ! i) \<noteq> []} \<subseteq> {c}" by auto
  then have "card {i. i < length ps \<and> alive (ps ! i) \<and> hand (ps ! i) \<noteq> []} \<le> card {c}"
    by (intro card_mono) simp_all
  then have "length (filter (\<lambda>p. alive p \<and> hand p \<noteq> []) ps) \<le> 1"
    by (simp add: length_filter_conv_card)
  with assms show False by (simp add: countAliveWithCards_def)
qed

lemma decider_of_first: "decider_of [ev] = Some x \<Longrightarrow> decider_of (ev # es) = Some x"
  by (cases ev) simp_all

lemma four_players:
  assumes "map name ps = player_names"
  shows "length ps = 4"
proof -
  have "length (map name ps) = length player_names" by (simp only: assms)
  then show ?thesis by (simp add: player_names_def)
qed

lemma bot_names:
  assumes "map name ps = player_names" "j < length ps" "j \<noteq> 0"
  shows "sublist ''Bot'' (name (ps ! j))"
proof -
  have l: "length ps = 4" using assms(1) by (rule four_players)
  have "name (ps ! j) = player_names ! j" using assms(1,2) by (metis nth_map)
  moreover from assms(2,3) l have "j = 1 \<or> j = 2 \<or> j = 3" by linarith
  ultimately have "name (ps ! j) = ''Bot1'' \<or> name (ps ! j) = ''Bot2'' \<or> name (ps ! j) = ''Bot3''"
    by (auto simp: player_names_def)
  moreover have "sublist ''Bot'' ''Bot1''" "sublist ''Bot'' ''Bot2''" "sublist ''Bot'' ''Bot3''"
    by code_simp+
  ultimately show ?thesis by auto
qed

lemma human_seat:
  assumes "map name ps = player_names" "c < length ps" "name (ps ! c) = ''Human''"
  shows "c = 0"
proof -
  have l: "length ps = 4" using assms(1) by (rule four_players)
  have "name (ps ! c) = player_names ! c" using assms(1,2) by (metis nth_map)
  moreover from assms(2) l have "c = 0 \<or> c = 1 \<or> c = 2 \<or> c = 3" by linarith
  ultimately show ?thesis using assms(3) by (auto simp: player_names_def)
qed

text \<open>
  C7 (amended). After a play, the player who is given the decision to question is the
  first player after the one who has just played, in wrapping seat order, who is alive
  and holds cards; a player who is alive with an empty hand is passed over. (The four
  players are under their names; the turn is one after which the loop goes on.)
\<close>

theorem decider_is_next_with_cards:
  assumes "map name (players s) = player_names"
    and "turn inp s = Some (Fallthrough, s1)"
  shows "\<exists>j. firstAliveWithCardsAfter (players s) (currentPlayerIndex s) = Some j
           \<and> j < length (players s) \<and> int j \<noteq> currentPlayerIndex s
           \<and> decider_of (emitted s s1) = Some (name (players s ! j))"
proof -
  let ?P = "\<lambda>p. alive p \<and> hand p \<noteq> []"
  let ?c = "nat (currentPlayerIndex s)"
  have l: "length (players s) = 4" using assms(1) by (rule four_players)
  from turn_Fallthrough [OF assms(2)] obtain cur :: player and s2 where
    many: "1 < countAliveWithCards (players s)"
    and c: "at (players s) (currentPlayerIndex s) = Some cur"
    and p: "playPart inp s = Some s2"
    and d: "decisionPart inp (name cur = ''Human'') s2 = Some (Fallthrough, s1)"
    by auto
  from c have r: "0 \<le> currentPlayerIndex s" "?c < length (players s)"
    and cur: "cur = players s ! ?c"
    by (auto simp: at_def split: if_splits)
  have ic: "int ?c = currentPlayerIndex s" using r(1) by simp
  from playPart_Some [OF p] obtain played :: "string list" and p' l' where
    s2: "s2 = s\<lparr>players := (players s)[?c := p'], lastPlayedByIndex := l',
                 out := out s @ [HiddenPlay (name cur) (length played)]\<rparr>"
    using c by auto
  have ps2: "players s2 = (players s)[?c := p']" and c2: "currentPlayerIndex s2 = currentPlayerIndex s"
    and o2: "out s2 = out s @ [HiddenPlay (name cur) (length played)]"
    by (simp_all add: s2)
  have l2: "length (players s2) = length (players s)" by (simp add: ps2)
  have same: "players s2 ! j = players s ! j" if "j \<noteq> ?c" for j
    using that by (simp add: ps2)
  from two_with_cards [OF many, of ?c] obtain j0 where
    j0: "j0 < length (players s)" "j0 \<noteq> ?c" "?P (players s ! j0)" by blast
  from firstAfter_other [of ?c "players s2" j0 ?P] r(2) j0 same [of j0] l2
  obtain j where j: "firstAfter ?P (players s2) (int ?c) = Some j" "j \<noteq> ?c" by auto
  have first: "firstAfter ?P (players s) (int ?c) = Some j"
    using l2 r(2) _ j by (rule firstAfter_agree) (simp add: same)
  from firstAfter_Some [OF first] have jl: "j < length (players s)" by simp
  have "getNextAlivePlayer (players s2) (currentPlayerIndex s2) =
      Some (case firstAliveWithCardsAfter (players s2) (currentPlayerIndex s2) of
              None \<Rightarrow> - 1 | Some j \<Rightarrow> int j)"
    using r l by (intro getNextAlivePlayer_first) (simp_all add: c2 l2 INT_MAX_def)
  moreover have "firstAfter ?P (players s2) (currentPlayerIndex s) = Some j"
    using j(1) by (simp only: ic)
  ultimately have g: "getNextAlivePlayer (players s2) (currentPlayerIndex s2) = Some (int j)"
    by (simp add: firstAliveWithCardsAfter_def c2)
  have nextP: "at (players s2) (int j) = Some (players s ! j)"
    using jl l2 same [OF j(2)] by (simp add: at_def)
  have bot: "sublist ''Bot'' (name (players s ! j))" if "name cur = ''Human''"
  proof -
    from human_seat [OF assms(1) r(2)] that cur have "?c = 0" by simp
    with j(2) have "j \<noteq> 0" by simp
    with assms(1) jl show ?thesis by (rule bot_names)
  qed
  from decisionPart_Some [OF d] g nextP consider
    (declined) evs where "s1 = s2\<lparr>out := out s2 @ evs\<rparr>"
      "name cur = ''Human'' \<and> \<not> sublist ''Bot'' (name (players s ! j))
       \<or> decider_of evs = Some (name (players s ! j))"
  | (asked) ev where "questionPrevious (int j) (currentPlayerIndex s2) (rand_bomb inp)
         (s2\<lparr>out := out s2 @ [ev]\<rparr>) = Some s1" "decider_of [ev] = Some (name (players s ! j))"
    by auto
  then have "decider_of (emitted s s1) = Some (name (players s ! j))"
  proof cases
    case declined
    with bot have "decider_of evs = Some (name (players s ! j))" by blast
    with declined(1) show ?thesis by (simp add: emitted_def o2)
  next
    case asked
    from questionPrevious_effect(4) [OF asked(1)] obtain evs where
      "out s1 = out s @ (HiddenPlay (name cur) (length played) # ev # evs)"
      by (auto simp: o2)
    then have "emitted s s1 = HiddenPlay (name cur) (length played) # ev # evs"
      by (simp add: emitted_def)
    with decider_of_first [OF asked(2), of evs] show ?thesis by simp
  qed
  moreover have "firstAliveWithCardsAfter (players s) (currentPlayerIndex s) = Some j"
    using first by (simp only: ic firstAliveWithCardsAfter_def)
  moreover have "int j \<noteq> currentPlayerIndex s" using j(2) r(1) by linarith
  ultimately show ?thesis using jl by blast
qed

theorem decider_is_next_with_cards_witness:
  "map name (players ex_passed) = player_names
   \<and> (\<exists>s1. turn ex_inputs ex_passed = Some (Fallthrough, s1)
          \<and> decider_of (emitted ex_passed s1) = Some ''Bot2'')
   \<and> firstAliveWithCardsAfter (players ex_passed) (currentPlayerIndex ex_passed) = Some 2"
proof -
  have n: "map name (players ex_passed) = player_names" by code_simp
  have "map_option fst (turn ex_inputs ex_passed) = Some Fallthrough" by code_simp
  then obtain s1 where t: "turn ex_inputs ex_passed = Some (Fallthrough, s1)" by auto
  have f: "firstAliveWithCardsAfter (players ex_passed) (currentPlayerIndex ex_passed) = Some 2"
    by code_simp
  have "name (players ex_passed ! 2) = ''Bot2''" by code_simp
  with decider_is_next_with_cards [OF n t] f
  have "decider_of (emitted ex_passed s1) = Some ''Bot2''" by auto
  with n t f show ?thesis by blast
qed

text \<open>
  The decision does not go to the first alive player after the one who has played when
  that player holds no cards: the human plays, Bot1 is alive with an empty hand, and it
  is Bot2 who decides.
\<close>

theorem decider_first_alive_counterexample:
  "turn ex_inputs ex_passed \<noteq> None
   \<and> fst (the (turn ex_inputs ex_passed)) = Fallthrough
   \<and> firstAliveAfter (players ex_passed) (currentPlayerIndex ex_passed) = Some 1
   \<and> alive (players ex_passed ! 1) \<and> name (players ex_passed ! 1) = ''Bot1''
   \<and> emitted ex_passed (snd (the (turn ex_inputs ex_passed)))
       = [HiddenPlay ''Human'' 1, DecidesNot ''Bot2'']
   \<and> decider_of (emitted ex_passed (snd (the (turn ex_inputs ex_passed)))) = Some ''Bot2''"
  by code_simp

subsection \<open>The survive counter\<close>

lemma body_steady:
  assumes "body inp s = Some (fl, s')"
  shows "steady s s'"
proof -
  from assms obtain f1 s1 where t: "turn inp s = Some (f1, s1)"
    and rest: "(if f1 \<noteq> Fallthrough then Some (f1, s1)
                else forcedQuestioning inp s1 \<bind> (\<lambda>(f2, s2).
                  if f2 \<noteq> Fallthrough then Some (f2, s2) else advance s2)) = Some (fl, s')"
    by (auto simp: body_def split: Option.bind_splits)
  note st1 = turn_effect(1) [OF t]
  show ?thesis
  proof (cases "f1 = Fallthrough")
    case False
    with rest st1 show ?thesis by simp
  next
    case True
    with rest obtain f2 s2 where fq: "forcedQuestioning inp s1 = Some (f2, s2)"
      and adv: "(if f2 \<noteq> Fallthrough then Some (f2, s2) else advance s2) = Some (fl, s')"
      by (auto split: Option.bind_splits)
    from st1 forcedQuestioning_steady [OF fq] have st2: "steady s s2" by (rule steady_trans)
    show ?thesis
    proof (cases "f2 = Fallthrough")
      case False
      with adv st2 show ?thesis by simp
    next
      case True
      with adv have "advance s2 = Some (fl, s')" by simp
      from st2 advance_effect(1) [OF this] show ?thesis by (rule steady_trans)
    qed
  qed
qed

lemma Game_init_counts_ok: "counts_ok (Game_init r d)"
  by (auto simp: counts_ok_def Game_init_def count_of_def player_names_def)

lemma dealCardsToAlive_surviveCount: "surviveCount (dealCardsToAlive n s) = surviveCount s"
  by (simp add: dealCardsToAlive_def split: prod.splits)

lemma reachable_counts_ok: "reachable pc s \<Longrightarrow> counts_ok s"
proof (induction rule: reachable.induct)
  case (start d0 d1 r)
  have "counts_ok (Game_init r d0)" by (rule Game_init_counts_ok)
  then show ?case by (simp add: counts_ok_def dealCardsToAlive_surviveCount)
next
  case (enter_round s r)
  then show ?case by (simp add: counts_ok_def)
next
  case (iterate s inp fl s')
  from body_steady [OF iterate.hyps(3)] iterate.IH show ?case by (simp add: steady_def)
next
  case (round_over s d)
  then show ?case by (simp add: counts_ok_def dealCardsToAlive_surviveCount)
next
  case (round_break s inp s' d)
  from body_steady [OF round_break.hyps(3)] round_break.IH have "counts_ok s'"
    by (simp add: steady_def)
  then show ?case by (simp add: counts_ok_def dealCardsToAlive_surviveCount)
next
  case (finish s)
  then show ?case by simp
qed

text \<open>
  C2. In every state the game reaches, the survive counter of every name is 0, 1 or 2,
  and \<open>handleQuestioning\<close> keeps it so. In \<open>handleQuestioning\<close> the bomb is for the party at
  fault (the player who played when the play is incorrect, the questioner when it is
  correct): with a counter of 2 or more the player dies whatever \<open>rand()\<close> gives and the
  counter becomes 0; with a smaller counter and \<open>rand() % 3 == 0\<close> the player dies and the
  counter becomes 0; otherwise the player stays as before and the counter grows by 1.
\<close>

theorem survive_counter:
  "(reachable pc s \<longrightarrow> (\<forall>nm. count_of (surviveCount s) nm \<in> {0, 1, 2}))
   \<and> (handleQuestioning q w played fc r s = Some (b, s')
        \<and> q < length (players s) \<and> w < length (players s) \<longrightarrow>
      ((\<forall>nm. count_of (surviveCount s) nm \<in> {0, 1, 2}) \<longrightarrow>
         (\<forall>nm. count_of (surviveCount s') nm \<in> {0, 1, 2}))
      \<and> (let sj = (if playIsCorrect played fc then q else w);
              nm = name (players s ! sj);
              c = count_of (surviveCount s) nm
          in (c \<ge> 2 \<longrightarrow> \<not> alive (players s' ! sj) \<and> count_of (surviveCount s') nm = 0)
           \<and> (c < 2 \<and> r mod 3 = 0 \<longrightarrow>
                 \<not> alive (players s' ! sj) \<and> count_of (surviveCount s') nm = 0)
           \<and> (c < 2 \<and> r mod 3 \<noteq> 0 \<longrightarrow>
                 players s' = players s \<and> count_of (surviveCount s') nm = c + 1)))"
proof (intro conjI impI)
  assume "reachable pc s"
  then show "\<forall>nm. count_of (surviveCount s) nm \<in> {0, 1, 2}"
    using reachable_counts_ok by (simp add: counts_ok_def)
next
  assume a: "handleQuestioning q w played fc r s = Some (b, s')
        \<and> q < length (players s) \<and> w < length (players s)"
  assume "\<forall>nm. count_of (surviveCount s) nm \<in> {0, 1, 2}"
  then have "counts_ok s" by (simp add: counts_ok_def)
  moreover from a have "steady s s'" using handleQuestioning_steady by blast
  ultimately show "\<forall>nm. count_of (surviveCount s') nm \<in> {0, 1, 2}"
    by (simp add: steady_def counts_ok_def)
next
  assume a: "handleQuestioning q w played fc r s = Some (b, s')
        \<and> q < length (players s) \<and> w < length (players s)"
  define sj where "sj = (if playIsCorrect played fc then q else w)"
  from a have h: "handleQuestioning q w played fc r s = Some (b, s')" by simp
  note hp = handleQuestioning_players(1,2) [OF h, unfolded atFault_def sj_def [symmetric]]
  from a have sj: "sj < length (players s)" by (simp add: sj_def)
  have A: "2 \<le> count_of (surviveCount s) (name (players s ! sj)) \<longrightarrow>
      \<not> alive (players s' ! sj) \<and> count_of (surviveCount s') (name (players s ! sj)) = 0"
    using bomb_third [OF sj, of r] by (simp add: hp)
  have B: "count_of (surviveCount s) (name (players s ! sj)) < 2 \<and> r mod 3 = 0 \<longrightarrow>
      \<not> alive (players s' ! sj) \<and> count_of (surviveCount s') (name (players s ! sj)) = 0"
    using bomb_explodes [OF sj, of r] by (simp add: hp)
  have C: "count_of (surviveCount s) (name (players s ! sj)) < 2 \<and> r mod 3 \<noteq> 0 \<longrightarrow>
      players s' = players s
      \<and> count_of (surviveCount s') (name (players s ! sj))
          = count_of (surviveCount s) (name (players s ! sj)) + 1"
    using bomb_survived [of s sj r] by (simp add: hp)
  show "let sj = (if playIsCorrect played fc then q else w);
              nm = name (players s ! sj);
              c = count_of (surviveCount s) nm
          in (c \<ge> 2 \<longrightarrow> \<not> alive (players s' ! sj) \<and> count_of (surviveCount s') nm = 0)
           \<and> (c < 2 \<and> r mod 3 = 0 \<longrightarrow>
                 \<not> alive (players s' ! sj) \<and> count_of (surviveCount s') nm = 0)
           \<and> (c < 2 \<and> r mod 3 \<noteq> 0 \<longrightarrow>
                 players s' = players s \<and> count_of (surviveCount s') nm = c + 1)"
    unfolding Let_def sj_def [symmetric] using A B C by (intro conjI)
qed

theorem survive_counter_witness:
  "reachable InnerWhile (snd (the (body ex_asking ex_round)))
   \<and> count_of (surviveCount (snd (the (body ex_asking ex_round)))) ''Bot1'' = 1
   \<and> (\<forall>nm. count_of (surviveCount (snd (the (body ex_asking ex_round)))) nm \<in> {0, 1, 2})
   \<and> (\<exists>b s'. handleQuestioning 2 1 [''Sun''] ''Moon'' 4 ex_state = Some (b, s')
          \<and> \<not> alive (players s' ! 1) \<and> count_of (surviveCount s') ''Bot1'' = 0)"
proof -
  let ?s0 = "dealCardsToAlive 5 ((Game_init 0 fixed_cards)\<lparr>deck := fixed_cards\<rparr>)"
  have r0: "reachable OuterWhile ?s0" by (rule reachable.start) simp_all
  have c: "1 < countAliveWithCards (players ?s0)" by code_simp
  have r1: "reachable InnerWhile ex_round"
    unfolding ex_round_def using r0 c by (rule reachable.enter_round)
  have nr: "\<not> roundOver ex_round" by code_simp
  have "body ex_asking ex_round \<noteq> None" by code_simp
  then obtain fl s2 where b: "body ex_asking ex_round = Some (fl, s2)" by auto
  have "fst (the (body ex_asking ex_round)) \<noteq> Break" by code_simp
  with b have ne: "fl \<noteq> Break" by simp
  from r1 nr b ne have r2: "reachable InnerWhile s2" by (rule reachable.iterate)
  have one: "count_of (surviveCount (snd (the (body ex_asking ex_round)))) ''Bot1'' = 1"
    by code_simp
  have "handleQuestioning 2 1 [''Sun''] ''Moon'' 4 ex_state \<noteq> None" by code_simp
  then obtain b' s' where h: "handleQuestioning 2 1 [''Sun''] ''Moon'' 4 ex_state = Some (b', s')"
    by auto
  have q: "(2::nat) < length (players ex_state) \<and> (1::nat) < length (players ex_state)"
    by code_simp
  have nc: "\<not> playIsCorrect [''Sun''] ''Moon''" by code_simp
  have two: "2 \<le> count_of (surviveCount ex_state) (name (players ex_state ! 1))" by code_simp
  have nm: "name (players ex_state ! 1) = ''Bot1''" by code_simp
  note w1 = survive_counter [where pc = InnerWhile and s = s2]
  note w2 = survive_counter [where s = ex_state and q = 2 and w = 1 and played = "[''Sun'']"
      and fc = "''Moon''" and r = 4 and b = b' and s' = s']
  from w1 r2 have all: "\<forall>nm. count_of (surviveCount s2) nm \<in> {0, 1, 2}" by blast
  from w2 h q nc two nm have dead: "\<not> alive (players s' ! 1) \<and> count_of (surviveCount s') ''Bot1'' = 0"
    by (simp add: Let_def)
  from r2 one all b h dead show ?thesis by auto
qed

subsection \<open>Cards\<close>

lemma allMatch_iff: "allMatch played fc \<longleftrightarrow> (\<forall>c \<in> set played. c = fc \<or> c = ''Magic'')"
  by (induction played) auto

lemma erase_take_drop: "erase xs i = take i xs @ drop (Suc i) xs"
  by (induction xs i rule: erase.induct) simp_all

text \<open>
  C1. \<open>playIsCorrect\<close> is true exactly when the play is non-empty and each of its cards is
  the focus card or "Magic"; on the empty play it is false whatever the focus card is.
\<close>

theorem playIsCorrect_iff:
  "(playIsCorrect played fc \<longleftrightarrow> played \<noteq> [] \<and> (\<forall>c \<in> set played. c = fc \<or> c = ''Magic''))
   \<and> \<not> playIsCorrect [] fc"
proof
  show "playIsCorrect played fc \<longleftrightarrow>
      played \<noteq> [] \<and> (\<forall>c \<in> set played. c = fc \<or> c = ''Magic'')"
  proof (cases "played = []")
    case True
    then show ?thesis by (simp add: playIsCorrect_def)
  next
    case False
    then have "playIsCorrect played fc = allMatch played fc" by (simp add: playIsCorrect_def)
    with False show ?thesis by (simp add: allMatch_iff)
  qed
  show "\<not> playIsCorrect [] fc" by (simp add: playIsCorrect_def)
qed

theorem playIsCorrect_iff_witness:
  "playIsCorrect [''Sun'', ''Magic''] ''Sun'' \<and> \<not> playIsCorrect [''Sun'', ''Moon''] ''Sun''
   \<and> \<not> playIsCorrect [] ''Sun''"
  using playIsCorrect_iff [of "[''Sun'', ''Magic'']" "''Sun''"]
    playIsCorrect_iff [of "[''Sun'', ''Moon'']" "''Sun''"]
  by simp

text \<open>
  C10. \<open>removeCardAt\<close> with an index below 0 or at least the size of the hand returns the
  player unchanged (the function has no error path); with an index in range the new
  hand is the old one without the card at that position, the cards before it and the
  cards after it in their old order, and nothing else of the player changes.
\<close>

theorem removeCardAt_spec:
  "(idx < 0 \<or> idx \<ge> int (length (hand p)) \<longrightarrow> removeCardAt idx p = p)
   \<and> (0 \<le> idx \<and> idx < int (length (hand p)) \<longrightarrow>
        hand p = take (nat idx) (hand p) @ [hand p ! nat idx] @ drop (Suc (nat idx)) (hand p)
        \<and> hand (removeCardAt idx p) = take (nat idx) (hand p) @ drop (Suc (nat idx)) (hand p)
        \<and> length (hand (removeCardAt idx p)) = length (hand p) - 1
        \<and> name (removeCardAt idx p) = name p \<and> alive (removeCardAt idx p) = alive p)"
proof (intro conjI impI)
  assume "idx < 0 \<or> idx \<ge> int (length (hand p))"
  then show "removeCardAt idx p = p"
    by (auto simp: removeCardAt_def)
next
  assume r: "0 \<le> idx \<and> idx < int (length (hand p))"
  then have lt: "nat idx < length (hand p)" by linarith
  show "hand p = take (nat idx) (hand p) @ [hand p ! nat idx] @ drop (Suc (nat idx)) (hand p)"
    using lt by (simp add: id_take_nth_drop [symmetric])
  show "hand (removeCardAt idx p) = take (nat idx) (hand p) @ drop (Suc (nat idx)) (hand p)"
    using r by (simp add: removeCardAt_def erase_take_drop)
  show "length (hand (removeCardAt idx p)) = length (hand p) - 1"
    using r lt by (simp add: removeCardAt_def erase_take_drop)
  show "name (removeCardAt idx p) = name p"
    by (simp add: removeCardAt_def)
  show "alive (removeCardAt idx p) = alive p"
    by (simp add: removeCardAt_def)
qed

theorem removeCardAt_spec_witness:
  "removeCardAt 5 \<lparr>name = ''Human'', hand = [''Sun'', ''Star'', ''Moon''], alive = True\<rparr>
     = \<lparr>name = ''Human'', hand = [''Sun'', ''Star'', ''Moon''], alive = True\<rparr>
   \<and> removeCardAt (- 1) \<lparr>name = ''Human'', hand = [''Sun'', ''Star'', ''Moon''], alive = True\<rparr>
     = \<lparr>name = ''Human'', hand = [''Sun'', ''Star'', ''Moon''], alive = True\<rparr>
   \<and> hand (removeCardAt 1 \<lparr>name = ''Human'', hand = [''Sun'', ''Star'', ''Moon''], alive = True\<rparr>)
     = [''Sun'', ''Moon'']"
  using removeCardAt_spec [of 5 "\<lparr>name = ''Human'', hand = [''Sun'', ''Star'', ''Moon''], alive = True\<rparr>"]
    removeCardAt_spec [of "- 1" "\<lparr>name = ''Human'', hand = [''Sun'', ''Star'', ''Moon''], alive = True\<rparr>"]
    removeCardAt_spec [of 1 "\<lparr>name = ''Human'', hand = [''Sun'', ''Star'', ''Moon''], alive = True\<rparr>"]
  by simp

subsection \<open>The human's play\<close>

lemma sort_desc_eq: "sort_desc xs = rev (sort xs)"
proof -
  have "sort (rev xs) = sort xs" by (rule properties_for_sort) simp_all
  then show ?thesis by (simp add: sort_desc_def)
qed

lemma nths_everything: "nths xs UNIV = xs"
  by (simp add: nths_all)

lemma nths_cong_on:
  "(\<And>j. j < length xs \<Longrightarrow> j \<in> A \<longleftrightarrow> j \<in> B) \<Longrightarrow> nths xs A = nths xs B"
proof (induction xs arbitrary: A B rule: rev_induct)
  case Nil
  then show ?case by simp
next
  case (snoc x xs)
  have "nths xs A = nths xs B" using snoc.prems by (intro snoc.IH) simp
  moreover have "length xs \<in> A \<longleftrightarrow> length xs \<in> B" using snoc.prems by simp
  ultimately show ?case by (simp add: nths_append)
qed

lemma removeChosen_loop_desc:
  assumes "sorted_wrt (>) xs" "\<forall>i \<in> set xs. 0 \<le> i \<and> i < int (length (hand p))"
  shows "removeChosen_loop xs p played =
     Some (played @ map (\<lambda>i. hand p ! nat i) xs,
           p\<lparr>hand := nths (hand p) {j. int j \<notin> set xs}\<rparr>)"
  using assms
proof (induction xs arbitrary: p played)
  case Nil
  then show ?case by (simp add: nths_everything)
next
  case (Cons idx rest)
  let ?h = "hand p"
  let ?i = "nat idx"
  from Cons.prems have r: "0 \<le> idx" "idx < int (length ?h)" by simp_all
  then have il: "?i < length ?h" by linarith
  have at: "at ?h idx = Some (?h ! ?i)" using r by (simp add: at_def)
  let ?p1 = "removeCardAt idx p"
  have h1: "hand ?p1 = take ?i ?h @ drop (Suc ?i) ?h"
    using r by (simp add: removeCardAt_def erase_take_drop)
  have p1: "?p1 = p\<lparr>hand := take ?i ?h @ drop (Suc ?i) ?h\<rparr>"
    using r by (simp add: removeCardAt_def erase_take_drop)
  have below: "0 \<le> j \<and> j < idx" if "j \<in> set rest" for j
    using Cons.prems that by auto
  have s1: "sorted_wrt (>) rest" using Cons.prems by simp
  have b1: "\<forall>j \<in> set rest. 0 \<le> j \<and> j < int (length (hand ?p1))"
  proof
    fix j assume "j \<in> set rest"
    from below [OF this] il show "0 \<le> j \<and> j < int (length (hand ?p1))"
      by (simp add: h1) linarith
  qed
  have same: "hand ?p1 ! nat j = ?h ! nat j" if "j \<in> set rest" for j
  proof -
    from below [OF that] have "nat j < ?i" by linarith
    then show ?thesis using il by (simp add: h1 nth_append)
  qed
  have m: "map (\<lambda>j. hand ?p1 ! nat j) rest = map (\<lambda>j. ?h ! nat j) rest"
    using same by simp
  have split: "?h = take ?i ?h @ [?h ! ?i] @ drop (Suc ?i) ?h"
    using il by (simp add: id_take_nth_drop [symmetric])
  have A1: "nths (take ?i ?h) {j. int j \<notin> set rest} = nths (take ?i ?h) {j. int j \<notin> set (idx # rest)}"
    using r by (intro nths_cong_on) auto
  have lt: "length (take ?i ?h) = ?i" using il by simp
  have notin: "int (j + ?i) \<notin> set rest" for j
  proof
    assume "int (j + ?i) \<in> set rest"
    from below [OF this] r show False by linarith
  qed
  have notin': "int (j + Suc ?i) \<notin> set (idx # rest)" for j
  proof
    assume "int (j + Suc ?i) \<in> set (idx # rest)"
    then have "int (j + Suc ?i) = idx \<or> int (j + Suc ?i) \<in> set rest" by simp
    then show False
    proof
      assume "int (j + Suc ?i) = idx"
      with r show False by linarith
    next
      assume "int (j + Suc ?i) \<in> set rest"
      from below [OF this] r show False by linarith
    qed
  qed
  have A3: "{j. j + length (take ?i ?h) \<in> {j. int j \<notin> set rest}} = UNIV"
    unfolding lt using notin by blast
  have A4: "{j. j + length (take ?i ?h @ [?h ! ?i]) \<in> {j. int j \<notin> set (idx # rest)}} = UNIV"
  proof -
    have "length (take ?i ?h @ [?h ! ?i]) = Suc ?i" using lt by simp
    then show ?thesis using notin' by auto
  qed
  have A2: "0 \<notin> {j. j + length (take ?i ?h) \<in> {j. int j \<notin> set (idx # rest)}}"
    unfolding lt using r by simp
  have "nths ?h {j. int j \<notin> set (idx # rest)}
      = nths ((take ?i ?h @ [?h ! ?i]) @ drop (Suc ?i) ?h) {j. int j \<notin> set (idx # rest)}"
    using split by simp
  also have "\<dots> = nths (take ?i ?h) {j. int j \<notin> set (idx # rest)} @ drop (Suc ?i) ?h"
    using A2 by (subst nths_append, subst A4, subst nths_append) (simp add: nths_everything)
  also have "\<dots> = nths (hand ?p1) {j. int j \<notin> set rest}"
    by (simp only: h1 nths_append A3 A1 [symmetric] nths_everything)
  finally have n: "nths (hand ?p1) {j. int j \<notin> set rest} = nths ?h {j. int j \<notin> set (idx # rest)}"
    by simp
  have "removeChosen_loop (idx # rest) p played = removeChosen_loop rest ?p1 (played @ [?h ! ?i])"
    using at by simp
  also have "\<dots> = Some ((played @ [?h ! ?i]) @ map (\<lambda>j. hand ?p1 ! nat j) rest,
      ?p1\<lparr>hand := nths (hand ?p1) {j. int j \<notin> set rest}\<rparr>)"
    by (rule Cons.IH [OF s1 b1])
  also have "\<dots> = Some (played @ map (\<lambda>j. ?h ! nat j) (idx # rest),
      p\<lparr>hand := nths ?h {j. int j \<notin> set (idx # rest)}\<rparr>)"
    by (simp only: m n) (simp add: p1)
  finally show ?case .
qed

text \<open>
  The played cards do not come back in the order of selection: with the hand Sun, Star,
  Moon and the selection third card, then first card, the play is Sun, Moon.
\<close>

theorem humanPlay_selection_order_counterexample:
  "valid_choice (hand ex_human) [2, 0]
   \<and> map_option fst (humanPlay [2, 0] ex_human) = Some [''Sun'', ''Moon'']
   \<and> selection_order (hand ex_human) [2, 0] = [''Moon'', ''Sun'']
   \<and> map_option fst (humanPlay [2, 0] ex_human) \<noteq> Some (selection_order (hand ex_human) [2, 0])"
  by code_simp

text \<open>
  C8 (amended). For a hand and distinct indices within it, the human's cards are removed
  in descending index order (the loop runs over \<open>sort_desc chosen\<close>), the hand that is
  left is the old hand without the chosen positions, and the returned play lists the
  chosen cards in ascending index order, the order they had in the hand, whatever the
  order of selection was.
\<close>

theorem humanPlay_order:
  assumes "distinct ch" and "\<forall>i \<in> set ch. 0 \<le> i \<and> i < int (length (hand p))"
  shows "humanPlay ch p =
           Some (map (\<lambda>i. hand p ! nat i) (sort ch),
                 p\<lparr>hand := nths (hand p) {j. int j \<notin> set ch}\<rparr>)
         \<and> humanPlay ch p =
           map_option (\<lambda>(played, p'). (rev played, p')) (removeChosen_loop (sort_desc ch) p [])
         \<and> sorted_wrt (>) (sort_desc ch) \<and> mset (sort_desc ch) = mset ch"
proof -
  have sd: "sort_desc ch = rev (sort ch)" by (rule sort_desc_eq)
  have "sorted_wrt (<) (sort ch)" using assms(1) by (simp add: strict_sorted_iff)
  then have desc: "sorted_wrt (>) (sort_desc ch)" by (simp add: sd sorted_wrt_rev)
  have rng: "\<forall>i \<in> set (sort_desc ch). 0 \<le> i \<and> i < int (length (hand p))"
    using assms(2) by (simp add: sd)
  have loop: "removeChosen_loop (sort_desc ch) p [] =
      Some ([] @ map (\<lambda>i. hand p ! nat i) (sort_desc ch),
            p\<lparr>hand := nths (hand p) {j. int j \<notin> set (sort_desc ch)}\<rparr>)"
    using desc rng by (rule removeChosen_loop_desc)
  have "rev (map (\<lambda>i. hand p ! nat i) (sort_desc ch)) = map (\<lambda>i. hand p ! nat i) (sort ch)"
    by (simp add: sd rev_map)
  moreover have "set (sort_desc ch) = set ch" by (simp add: sd)
  ultimately have "humanPlay ch p =
           Some (map (\<lambda>i. hand p ! nat i) (sort ch),
                 p\<lparr>hand := nths (hand p) {j. int j \<notin> set ch}\<rparr>)"
    using loop by (simp add: humanPlay_def)
  moreover have "humanPlay ch p =
           map_option (\<lambda>(played, p'). (rev played, p')) (removeChosen_loop (sort_desc ch) p [])"
    by (simp add: humanPlay_def split: option.splits)
  moreover have "mset (sort_desc ch) = mset ch" by (simp add: sd)
  ultimately show ?thesis using desc by blast
qed

theorem humanPlay_order_witness:
  "distinct [2, 0 :: int] \<and> list_all (\<lambda>i. 0 \<le> i \<and> i < int (length (hand ex_human))) [2, 0]
   \<and> humanPlay [2, 0] ex_human = Some ([''Sun'', ''Moon''], ex_human\<lparr>hand := [''Star'']\<rparr>)
   \<and> sort_desc [2, 0] = [2, 0]"
proof -
  have d: "distinct [2, 0 :: int]" by simp
  have r: "\<forall>i \<in> set [2, 0]. 0 \<le> i \<and> i < int (length (hand ex_human))" by code_simp
  have s: "map (\<lambda>i. hand ex_human ! nat i) (sort [2, 0]) = [''Sun'', ''Moon'']" by code_simp
  have "{j. int j \<notin> set [2, 0]} = - {0, 2}" by (auto simp: nat_eq_iff)
  then have n: "nths (hand ex_human) {j. int j \<notin> set [2, 0]} = [''Star'']"
    by (simp add: ex_human_def nths_Cons)
  have sd: "sort_desc [2, 0] = [2, 0]" by code_simp
  have r': "list_all (\<lambda>i. 0 \<le> i \<and> i < int (length (hand ex_human))) [2, 0]" by code_simp
  from humanPlay_order [OF d r] s n sd d r' show ?thesis by simp
qed

subsection \<open>The shape of the game is kept, and no step is undefined\<close>

lemma shape_length: "shape_ok s \<Longrightarrow> length (players s) = 4 \<and> length (lastPlayedByIndex s) = 4"
  by (auto simp: shape_ok_def dest: four_players)

lemma steady_shape:
  assumes "shape_ok s" "steady s s'"
    "0 \<le> currentPlayerIndex s'" "currentPlayerIndex s' < int (length (players s'))"
  shows "shape_ok s'"
  using assms by (simp add: shape_ok_def steady_def) (metis length_map)

lemma getNextAlivePlayer_Some:
  assumes "- 1 \<le> start" "start + int (length ps) \<le> INT_MAX"
  shows "\<exists>nxt. getNextAlivePlayer ps start = Some nxt
           \<and> (nxt = - 1 \<or> 0 \<le> nxt \<and> nxt < int (length ps))"
proof -
  from getNextAlivePlayer_first [OF assms] obtain nxt where
    g: "getNextAlivePlayer ps start = Some nxt" by blast
  with getNextAlivePlayer_sound [OF g] show ?thesis by blast
qed

lemma shape_lookup:
  assumes "shape_ok s"
  shows "\<exists>nxt. getNextAlivePlayer (players s) (currentPlayerIndex s) = Some nxt
           \<and> (nxt = - 1 \<or> 0 \<le> nxt \<and> nxt < int (length (players s)))"
  using assms shape_length [OF assms]
  by (intro getNextAlivePlayer_Some) (simp_all add: shape_ok_def INT_MAX_def)

lemma turnToQuestioner_range:
  assumes "turnToQuestioner nm s = Some s'" "players s \<noteq> []"
  shows "0 \<le> currentPlayerIndex s' \<and> currentPlayerIndex s' < int (length (players s'))"
proof (cases "findPlayerIndex (players s) nm \<noteq> - 1")
  case True
  with assms(1) have "s' = s\<lparr>currentPlayerIndex := findPlayerIndex (players s) nm\<rparr>"
    by (simp add: turnToQuestioner_def Let_def)
  with findPlayerIndex_range [OF True] show ?thesis by simp
next
  case False
  with assms(1) obtain fb where g: "getNextAlivePlayer (players s) (- 1) = Some fb"
    and e: "s' = s\<lparr>currentPlayerIndex := (if fb \<noteq> - 1 then fb else 0)\<rparr>"
    by (auto simp: turnToQuestioner_def Let_def split: option.splits)
  show ?thesis
  proof (cases "fb = - 1")
    case True
    with e assms(2) show ?thesis by simp
  next
    case False
    with getNextAlivePlayer_sound [OF g False] e show ?thesis by simp
  qed
qed

lemma handleQuestioning_range:
  assumes "handleQuestioning q w played fc r s = Some (b, s')" "players s \<noteq> []"
  shows "0 \<le> currentPlayerIndex s' \<and> currentPlayerIndex s' < int (length (players s'))"
proof -
  let ?b = "bomb (atFault q w played fc) r (s\<lparr>out := out s @ faultEvents q w played fc s\<rparr>)"
  from assms(1) have t: "turnToQuestioner (name (players ?b ! q)) ?b = Some s'"
    by (auto simp: handleQuestioning_link)
  have "players ?b \<noteq> []" using assms(2) bomb_length [of "atFault q w played fc" r
      "s\<lparr>out := out s @ faultEvents q w played fc s\<rparr>"] by auto
  with t show ?thesis by (rule turnToQuestioner_range)
qed

lemma handleQuestioning_shape:
  assumes "handleQuestioning q w played fc r s = Some (b, s')" "shape_ok s"
  shows "shape_ok s'"
proof -
  from shape_length [OF assms(2)] have "players s \<noteq> []" by auto
  from handleQuestioning_range [OF assms(1) this] handleQuestioning_steady [OF assms(1)] assms(2)
  show ?thesis by (auto intro: steady_shape)
qed

lemma shape_flags: "shape_ok (s\<lparr>roundOver := r, anyQuestionAsked := a\<rparr>) = shape_ok s"
  "shape_ok (s\<lparr>out := out'\<rparr>) = shape_ok s" "shape_ok (s\<lparr>roundOver := r\<rparr>) = shape_ok s"
  by (simp_all add: shape_ok_def)

lemma questionPrevious_shape:
  assumes "questionPrevious nxt cur r s = Some s'" "shape_ok s"
  shows "shape_ok s'"
proof -
  from questionPrevious_Some [OF assms(1)] obtain toCheck s'' where
    h: "handleQuestioning (nat nxt) (nat cur) toCheck (focus s) r s = Some (True, s'')"
    and e: "s' = s''\<lparr>roundOver := True, anyQuestionAsked := True\<rparr>" by blast
  from handleQuestioning_shape [OF h assms(2)] e show ?thesis by (simp add: shape_flags)
qed

lemma questionPrevious_total:
  assumes "shape_ok s" "0 \<le> nxt" "nxt < int (length (players s))"
  shows "\<exists>s'. questionPrevious nxt (currentPlayerIndex s) r s = Some s'"
proof -
  let ?c = "currentPlayerIndex s"
  from assms(1) have c: "0 \<le> ?c" "?c < int (length (players s))"
    and ll: "length (lastPlayedByIndex s) = length (players s)" by (simp_all add: shape_ok_def)
  then have a: "at (players s) ?c = Some (players s ! nat ?c)" by (simp add: at_def)
  let ?i = "findPlayerIndex (players s) (name (players s ! nat ?c))"
  have "nat ?c < length (players s)" using c by linarith
  then have ne: "?i \<noteq> - 1" by (rule findPlayerIndex_found)
  from findPlayerIndex_range [OF ne] ll
  have t: "at (lastPlayedByIndex s) ?i = Some (lastPlayedByIndex s ! nat ?i)" by (simp add: at_def)
  have "nat nxt < length (players s)" using assms(2,3) by linarith
  from handleQuestioning_eq [OF this]
  obtain s'' where "handleQuestioning (nat nxt) (nat ?c) (lastPlayedByIndex s ! nat ?i) (focus s) r s
      = Some (True, s'')" by blast
  with a t ne show ?thesis by (simp add: questionPrevious_def)
qed

lemma playPart_shape:
  assumes "playPart inp s = Some s2" "shape_ok s"
  shows "shape_ok s2"
proof -
  note e = playPart_effect [OF assms(1)]
  from e(1) have "length (players s2) = length (players s)"
    by (simp add: steady_def) (metis length_map)
  with assms(2) e(3) have "0 \<le> currentPlayerIndex s2"
    "currentPlayerIndex s2 < int (length (players s2))" by (simp_all add: shape_ok_def)
  with assms(2) e(1) show ?thesis by (rule steady_shape)
qed

lemma storeLastPlayed_total:
  assumes "length (lastPlayedByIndex s) = length (players s)"
  shows "\<exists>s'. storeLastPlayed nm played s = Some s'"
proof (cases "findPlayerIndex (players s) nm \<noteq> - 1")
  case True
  from findPlayerIndex_range [OF True] assms show ?thesis
    by (simp add: storeLastPlayed_def Let_def)
next
  case False
  then show ?thesis by (simp add: storeLastPlayed_def)
qed

lemma humanPlay_defined:
  assumes "distinct ch" and "\<forall>i \<in> set ch. 0 \<le> i \<and> i < int (length (hand p))"
  shows "\<exists>played p'. humanPlay ch p = Some (played, p')"
proof -
  have "sorted_wrt (<) (sort ch)" using assms(1) by (simp add: strict_sorted_iff)
  then have "sorted_wrt (>) (sort_desc ch)" by (simp add: sort_desc_eq sorted_wrt_rev)
  moreover have "\<forall>i \<in> set (sort_desc ch). 0 \<le> i \<and> i < int (length (hand p))"
    using assms(2) by (simp add: sort_desc_eq)
  ultimately show ?thesis
    using removeChosen_loop_desc [of "sort_desc ch" p "[]"] by (simp add: humanPlay_def)
qed

lemma playPart_total:
  assumes "shape_ok s"
    and "name (players s ! nat (currentPlayerIndex s)) = ''Human'' \<Longrightarrow>
           valid_choice (hand (players s ! nat (currentPlayerIndex s))) (chosen inp)"
  shows "\<exists>s2. playPart inp s = Some s2"
proof -
  let ?c = "currentPlayerIndex s"
  let ?cur = "players s ! nat ?c"
  from assms(1) have c: "0 \<le> ?c" "?c < int (length (players s))"
    and ll: "length (lastPlayedByIndex s) = length (players s)" by (simp_all add: shape_ok_def)
  then have a: "at (players s) ?c = Some ?cur" by (simp add: at_def)
  have "\<exists>played p'. (if name ?cur = ''Human'' then humanPlay (chosen inp) ?cur
      else Some (playCards (int (rand_count inp mod 3) + 1) ?cur)) = Some (played, p')"
  proof (cases "name ?cur = ''Human''")
    case True
    from assms(2) [OF True] have "distinct (chosen inp)"
      "\<forall>i \<in> set (chosen inp). 0 \<le> i \<and> i < int (length (hand ?cur))"
      by (simp_all add: valid_choice_def list_all_iff)
    from humanPlay_defined [OF this] True show ?thesis by simp
  next
    case False
    then show ?thesis by (cases "playCards (int (rand_count inp mod 3) + 1) ?cur") simp
  qed
  then obtain played p' where p: "(if name ?cur = ''Human'' then humanPlay (chosen inp) ?cur
      else Some (playCards (int (rand_count inp mod 3) + 1) ?cur)) = Some (played, p')" by blast
  have "length (lastPlayedByIndex (s\<lparr>players := (players s)[nat ?c := p']\<rparr>))
      = length (players (s\<lparr>players := (players s)[nat ?c := p']\<rparr>))"
    using ll by simp
  from storeLastPlayed_total [OF this, of "name p'" played] obtain s1 where
    "storeLastPlayed (name p') played (s\<lparr>players := (players s)[nat ?c := p']\<rparr>) = Some s1"
    by blast
  with a p show ?thesis by (simp add: playPart_def)
qed

lemma decisionPart_shape:
  assumes "decisionPart inp h s2 = Some (fl, s1)" "shape_ok s2"
  shows "shape_ok s1"
proof -
  from decisionPart_Some [OF assms(1)] consider
    (brk) "s1 = s2\<lparr>roundOver := True\<rparr>"
  | (declined) evs where "s1 = s2\<lparr>out := out s2 @ evs\<rparr>"
  | (asked) nxt ev where "questionPrevious nxt (currentPlayerIndex s2) (rand_bomb inp)
         (s2\<lparr>out := out s2 @ [ev]\<rparr>) = Some s1"
    by blast
  then show ?thesis
  proof cases
    case brk
    with assms(2) show ?thesis by (simp add: shape_flags)
  next
    case declined
    with assms(2) show ?thesis by (simp add: shape_flags)
  next
    case asked
    from assms(2) have "shape_ok (s2\<lparr>out := out s2 @ [ev]\<rparr>)" by (simp add: shape_flags)
    with asked show ?thesis by (rule questionPrevious_shape)
  qed
qed

lemma decisionPart_total:
  assumes "shape_ok s2"
  shows "\<exists>fl s1. decisionPart inp h s2 = Some (fl, s1)"
proof -
  from shape_lookup [OF assms] obtain nxt where
    g: "getNextAlivePlayer (players s2) (currentPlayerIndex s2) = Some nxt"
    and r: "nxt = - 1 \<or> 0 \<le> nxt \<and> nxt < int (length (players s2))" by blast
  show ?thesis
  proof (cases "nxt = - 1")
    case True
    with g show ?thesis by (simp add: decisionPart_def)
  next
    case False
    with r have nr: "0 \<le> nxt" "nxt < int (length (players s2))" by simp_all
    then have a: "at (players s2) nxt = Some (players s2 ! nat nxt)" by (simp add: at_def)
    have q: "\<exists>s'. questionPrevious nxt (currentPlayerIndex s2) (rand_bomb inp)
        (s2\<lparr>out := out s2 @ evs\<rparr>) = Some s'" for evs
      using questionPrevious_total [of "s2\<lparr>out := out s2 @ evs\<rparr>" nxt "rand_bomb inp"]
        assms nr by (simp add: shape_flags)
    have roll: "\<exists>fl s1. rollPart inp nxt nextP s2 = Some (fl, s1)" for nextP
      using q [of "[DecidesToQuestion (name nextP)]"] by (auto simp: rollPart_def)
    have ask: "\<exists>fl s1. askPart inp nxt s2 = Some (fl, s1)"
      using q [of "[AskHuman]"] by (auto simp: askPart_def)
    from g False a roll [of "players s2 ! nat nxt"] ask show ?thesis
      by (auto simp: decisionPart_def)
  qed
qed

lemma turn_shape:
  assumes "turn inp s = Some (fl, s1)" "shape_ok s"
  shows "shape_ok s1"
proof (cases "countAliveWithCards (players s) \<le> 1")
  case True
  with assms show ?thesis by (simp add: turn_parts)
next
  case False
  note many = this
  from assms(2) have a: "at (players s) (currentPlayerIndex s)
      = Some (players s ! nat (currentPlayerIndex s))" by (simp add: shape_ok_def at_def)
  let ?cur = "players s ! nat (currentPlayerIndex s)"
  show ?thesis
  proof (cases "\<not> alive ?cur \<or> hand ?cur = []")
    case True
    with assms(1) many a obtain nxt where
      g: "getNextAlivePlayer (players s) (currentPlayerIndex s) = Some nxt"
      and e: "nxt = - 1 \<and> s1 = s\<lparr>roundOver := True\<rparr>
            \<or> nxt \<noteq> - 1 \<and> s1 = s\<lparr>currentPlayerIndex := nxt\<rparr>"
      by (auto simp: turn_parts split: option.splits if_splits)
    from e show ?thesis
    proof
      assume "nxt = - 1 \<and> s1 = s\<lparr>roundOver := True\<rparr>"
      with assms(2) show ?thesis by (simp add: shape_flags)
    next
      assume n: "nxt \<noteq> - 1 \<and> s1 = s\<lparr>currentPlayerIndex := nxt\<rparr>"
      with getNextAlivePlayer_sound [OF g] assms(2) show ?thesis by (simp add: shape_ok_def)
    qed
  next
    case False
    with assms(1) many a obtain s2 where p: "playPart inp s = Some s2"
      and d: "decisionPart inp (name ?cur = ''Human'') s2 = Some (fl, s1)"
      by (auto simp: turn_parts split: Option.bind_splits)
    from d playPart_shape [OF p assms(2)] show ?thesis by (rule decisionPart_shape)
  qed
qed

lemma turn_total:
  assumes "shape_ok s"
    and "name (players s ! nat (currentPlayerIndex s)) = ''Human'' \<Longrightarrow>
           valid_choice (hand (players s ! nat (currentPlayerIndex s))) (chosen inp)"
  shows "\<exists>fl s1. turn inp s = Some (fl, s1)"
proof -
  from assms(1) have a: "at (players s) (currentPlayerIndex s)
      = Some (players s ! nat (currentPlayerIndex s))" by (simp add: shape_ok_def at_def)
  from shape_lookup [OF assms(1)] obtain nxt where
    g: "getNextAlivePlayer (players s) (currentPlayerIndex s) = Some nxt" by blast
  from playPart_total [OF assms] obtain s2 where p: "playPart inp s = Some s2" by blast
  from decisionPart_total [OF playPart_shape [OF p assms(1)]]
  obtain fl s1 where "decisionPart inp
      (name (players s ! nat (currentPlayerIndex s)) = ''Human'') s2 = Some (fl, s1)" by blast
  with a g p show ?thesis by (simp add: turn_parts)
qed

lemma forcedQuestioning_shape:
  assumes "forcedQuestioning inp s = Some (fl, s')" "shape_ok s"
  shows "shape_ok s'"
proof (cases "forcedCondition s")
  case False
  from forcedQuestioning_idle [OF assms(1) False] assms(2) show ?thesis
    by (auto simp: shape_flags)
next
  case True
  from forcedQuestioning_fires [OF assms(1) True]
  obtain nxt and questioner :: player and played s'' where
    h: "handleQuestioning (nat nxt) (nat (currentPlayerIndex s)) played (focus s)
                 (rand_forced_bomb inp)
                 (s\<lparr>out := out s @ [ForcedToQuestion (name questioner)]\<rparr>) = Some (True, s'')"
    and e: "s' = s''\<lparr>roundOver := True, anyQuestionAsked := True\<rparr>" by blast
  from assms(2) have "shape_ok (s\<lparr>out := out s @ [ForcedToQuestion (name questioner)]\<rparr>)"
    by (simp add: shape_flags)
  from handleQuestioning_shape [OF h this] e show ?thesis by (simp add: shape_flags)
qed

lemma forcedQuestioning_total:
  assumes "shape_ok s"
  shows "\<exists>fl s'. forcedQuestioning inp s = Some (fl, s')"
proof -
  let ?c = "currentPlayerIndex s"
  from assms have c: "0 \<le> ?c" "?c < int (length (players s))"
    and ll: "length (lastPlayedByIndex s) = length (players s)" by (simp_all add: shape_ok_def)
  then have a: "at (players s) ?c = Some (players s ! nat ?c)" by (simp add: at_def)
  from shape_lookup [OF assms] obtain nxt where
    g: "getNextAlivePlayer (players s) ?c = Some nxt"
    and r: "nxt = - 1 \<or> 0 \<le> nxt \<and> nxt < int (length (players s))" by blast
  show ?thesis
  proof (cases "nxt = - 1")
    case True
    with g show ?thesis by (simp add: forcedQuestioning_def Let_def)
  next
    case False
    with r have nr: "0 \<le> nxt" "nxt < int (length (players s))" by simp_all
    then have an: "at (players s) nxt = Some (players s ! nat nxt)" by (simp add: at_def)
    let ?i = "findPlayerIndex (players s) (name (players s ! nat ?c))"
    have "nat ?c < length (players s)" using c by linarith
    then have ne: "?i \<noteq> - 1" by (rule findPlayerIndex_found)
    from findPlayerIndex_range [OF ne] ll
    have t: "at (lastPlayedByIndex s) ?i = Some (lastPlayedByIndex s ! nat ?i)"
      by (simp add: at_def)
    have "nat nxt < length (players (s\<lparr>out := out s @
        [ForcedToQuestion (name (players s ! nat nxt))]\<rparr>))" using nr by simp
    from handleQuestioning_eq [OF this]
    obtain s'' where "handleQuestioning (nat nxt) (nat ?c) (lastPlayedByIndex s ! nat ?i) (focus s)
        (rand_forced_bomb inp)
        (s\<lparr>out := out s @ [ForcedToQuestion (name (players s ! nat nxt))]\<rparr>) = Some (True, s'')"
      by blast
    with g False an a t ne show ?thesis by (simp add: forcedQuestioning_def Let_def)
  qed
qed

lemma advance_shape:
  assumes "advance s = Some (fl, s')" "shape_ok s"
  shows "shape_ok s'"
proof (cases "roundOver s")
  case True
  with assms show ?thesis by (simp add: advance_def)
next
  case False
  with assms(1) obtain nxt where
    g: "getNextAlivePlayer (players s) (currentPlayerIndex s) = Some nxt"
    and e: "nxt = - 1 \<and> s' = s\<lparr>roundOver := True\<rparr>
          \<or> nxt \<noteq> - 1 \<and> s' = s\<lparr>currentPlayerIndex := nxt\<rparr>"
    by (auto simp: advance_def split: Option.bind_splits if_splits)
  from e show ?thesis
  proof
    assume "nxt = - 1 \<and> s' = s\<lparr>roundOver := True\<rparr>"
    with assms(2) show ?thesis by (simp add: shape_flags)
  next
    assume n: "nxt \<noteq> - 1 \<and> s' = s\<lparr>currentPlayerIndex := nxt\<rparr>"
    with getNextAlivePlayer_sound [OF g] assms(2) show ?thesis by (simp add: shape_ok_def)
  qed
qed

lemma advance_total:
  assumes "shape_ok s"
  shows "\<exists>fl s'. advance s = Some (fl, s')"
  using shape_lookup [OF assms] by (auto simp: advance_def)

lemma body_shape:
  assumes "body inp s = Some (fl, s')" "shape_ok s"
  shows "shape_ok s'"
proof -
  from assms(1) obtain f1 s1 where t: "turn inp s = Some (f1, s1)"
    and rest: "(if f1 \<noteq> Fallthrough then Some (f1, s1)
                else forcedQuestioning inp s1 \<bind> (\<lambda>(f2, s2).
                  if f2 \<noteq> Fallthrough then Some (f2, s2) else advance s2)) = Some (fl, s')"
    by (auto simp: body_def split: Option.bind_splits)
  note w1 = turn_shape [OF t assms(2)]
  show ?thesis
  proof (cases "f1 = Fallthrough")
    case False
    with rest w1 show ?thesis by simp
  next
    case True
    with rest obtain f2 s2 where fq: "forcedQuestioning inp s1 = Some (f2, s2)"
      and adv: "(if f2 \<noteq> Fallthrough then Some (f2, s2) else advance s2) = Some (fl, s')"
      by (auto split: Option.bind_splits)
    note w2 = forcedQuestioning_shape [OF fq w1]
    show ?thesis
    proof (cases "f2 = Fallthrough")
      case False
      with adv w2 show ?thesis by simp
    next
      case True
      with adv have "advance s2 = Some (fl, s')" by simp
      from this w2 show ?thesis by (rule advance_shape)
    qed
  qed
qed

lemma body_total:
  assumes "shape_ok s"
    and "name (players s ! nat (currentPlayerIndex s)) = ''Human'' \<Longrightarrow>
           valid_choice (hand (players s ! nat (currentPlayerIndex s))) (chosen inp)"
  shows "\<exists>fl s'. body inp s = Some (fl, s')"
proof -
  from turn_total [OF assms] obtain f1 s1 where t: "turn inp s = Some (f1, s1)" by blast
  note w1 = turn_shape [OF t assms(1)]
  from forcedQuestioning_total [OF w1] obtain f2 s2 where
    fq: "forcedQuestioning inp s1 = Some (f2, s2)" by blast
  note w2 = forcedQuestioning_shape [OF fq w1]
  from advance_total [OF w2] obtain f3 s3 where a: "advance s2 = Some (f3, s3)" by blast
  from t fq a show ?thesis by (simp add: body_def)
qed

lemma dealCardsToAlive_loop_names:
  "dealCardsToAlive_loop n ps d = (ps', d') \<Longrightarrow> map name ps' = map name ps"
proof (induction ps arbitrary: d ps' d')
  case Nil
  then show ?case by simp
next
  case (Cons p ps)
  show ?case
  proof (cases "alive p")
    case True
    obtain h d1 where dl: "deal n d = (h, d1)" by (cases "deal n d")
    obtain qs d2 where r: "dealCardsToAlive_loop n ps d1 = (qs, d2)"
      by (cases "dealCardsToAlive_loop n ps d1")
    from Cons.prems True dl r have "ps' = p\<lparr>hand := h\<rparr> # qs" by simp
    with Cons.IH [OF r] show ?thesis by simp
  next
    case False
    obtain qs d2 where r: "dealCardsToAlive_loop n ps d = (qs, d2)"
      by (cases "dealCardsToAlive_loop n ps d")
    from Cons.prems False r have "ps' = p # qs" by simp
    with Cons.IH [OF r] show ?thesis by simp
  qed
qed

lemma dealCardsToAlive_shape:
  assumes "shape_ok s"
  shows "shape_ok (dealCardsToAlive n s)"
proof -
  obtain ps' d' where l: "dealCardsToAlive_loop n (players s) (deck s) = (ps', d')"
    by (cases "dealCardsToAlive_loop n (players s) (deck s)")
  from dealCardsToAlive_loop_names [OF l] have n: "map name ps' = map name (players s)" .
  then have "length ps' = length (players s)" by (rule map_eq_imp_length_eq)
  with assms n l show ?thesis by (simp add: shape_ok_def dealCardsToAlive_def)
qed

lemma Game_init_shape: "shape_ok (Game_init r d)"
  by (simp add: shape_ok_def Game_init_def player_names_def)

lemma shape_round: "shape_ok (s\<lparr>focus := f, roundOver := r, anyQuestionAsked := a\<rparr>) = shape_ok s"
  "shape_ok (s\<lparr>deck := d\<rparr>) = shape_ok s" "shape_ok (s\<lparr>anyQuestionAsked := a\<rparr>) = shape_ok s"
  by (simp_all add: shape_ok_def)

lemma reachable_shape: "reachable pc s \<Longrightarrow> shape_ok s"
proof (induction rule: reachable.induct)
  case (start d0 d1 r)
  have "shape_ok ((Game_init r d0)\<lparr>deck := d1\<rparr>)" by (simp add: shape_round Game_init_shape)
  then show ?case by (rule dealCardsToAlive_shape)
next
  case (enter_round s r)
  then show ?case by (simp add: shape_ok_def)
next
  case (iterate s inp fl s')
  from iterate.hyps(3) iterate.IH show ?case by (rule body_shape)
next
  case (round_over s d)
  then have "shape_ok (s\<lparr>deck := d\<rparr>)" by (simp add: shape_round)
  then have "shape_ok (dealCardsToAlive 5 (s\<lparr>deck := d\<rparr>))" by (rule dealCardsToAlive_shape)
  then show ?case by (simp add: shape_round)
next
  case (round_break s inp s' d)
  from round_break.hyps(3) round_break.IH have "shape_ok s'" by (rule body_shape)
  then have "shape_ok (s'\<lparr>deck := d\<rparr>)" by (simp add: shape_round)
  then have "shape_ok (dealCardsToAlive 5 (s'\<lparr>deck := d\<rparr>))" by (rule dealCardsToAlive_shape)
  then show ?case by (simp add: shape_round)
next
  case (finish s)
  then show ?case by simp
qed

text \<open>
  In a state the game reaches, a pass through the loop body is defined (no vector is read
  out of range, no \<open>int\<close> overflows), whatever \<open>rand()\<close> gives, when the human's choice
  is what the input loops let through.
\<close>

lemma reachable_body_defined:
  assumes "reachable pc s"
    and "name (players s ! nat (currentPlayerIndex s)) = ''Human'' \<Longrightarrow>
           valid_choice (hand (players s ! nat (currentPlayerIndex s))) (chosen inp)"
  shows "\<exists>fl s'. body inp s = Some (fl, s') \<and> shape_ok s'"
proof -
  from assms(1) have w: "shape_ok s" by (rule reachable_shape)
  from body_total [OF w assms(2)] obtain fl s' where b: "body inp s = Some (fl, s')" by blast
  from body_shape [OF b w] b show ?thesis by blast
qed

end
